theory Spec2Isabelle
  imports
    Main
    "HOL-Library.Sublist"
    "HOL-Library.AList"
    "HOL-Library.Char_ord"
    "HOL-Library.List_Lexorder"
    "HOL-Library.Word"
begin

section \<open>Strings and lexical paths\<close>

text \<open>
  Go strings are byte sequences; they are modelled as \<open>string\<close> (a list of 8-bit
  characters).  The functions of this section model the pieces of the Go standard
  library (\<open>strings\<close>, \<open>path/filepath\<close> on a Unix host) that \<open>CopyDir2\<close> and
  \<open>copyFile\<close> call.
\<close>

text \<open>\<open>strings.Replace(s, old, new, 1)\<close>: the first occurrence of \<open>old\<close> is replaced.\<close>

fun replace_first :: "string \<Rightarrow> string \<Rightarrow> string \<Rightarrow> string" where
  "replace_first old new [] = (if old = [] then new else [])"
| "replace_first old new (c # cs) =
     (if prefix old (c # cs) then new @ drop (length old) (c # cs)
      else c # replace_first old new cs)"

text \<open>\<open>strings.TrimSuffix(s, suffix)\<close>.\<close>

definition TrimSuffix :: "string \<Rightarrow> string \<Rightarrow> string" where
  "TrimSuffix s suf = (if suffix suf s then take (length s - length suf) s else s)"

text \<open>\<open>strings.Split(p, "/")\<close>: the components between separators, empty ones kept.\<close>

fun split_path :: "string \<Rightarrow> string list" where
  "split_path [] = [[]]"
| "split_path (c # cs) =
     (if c = CHR ''/'' then [] # split_path cs
      else (case split_path cs of [] \<Rightarrow> [[c]] | x # xs \<Rightarrow> (c # x) # xs))"

text \<open>\<open>strings.Join(elems, "/")\<close>.\<close>

fun join_sep :: "string list \<Rightarrow> string" where
  "join_sep [] = []"
| "join_sep [x] = x"
| "join_sep (x # y # ys) = x @ ''/'' @ join_sep (y # ys)"

text \<open>
  \<open>filepath.Clean\<close>.  The Go function scans the path once, writing into a buffer; an
  empty element and \<open>.\<close> are skipped, \<open>..\<close> removes the last real element written,
  is dropped at the root of a rooted path and is kept at the front of a relative one.
  \<open>clean_step\<close> is one iteration of that scan on a whole element, the buffer being the
  list of elements written so far.
\<close>

definition clean_step :: "bool \<Rightarrow> string list \<Rightarrow> string \<Rightarrow> string list" where
  "clean_step rooted out c =
     (if c = [] \<or> c = ''.'' then out
      else if c = ''..'' then
        (if out \<noteq> [] \<and> last out \<noteq> ''..'' then butlast out
         else if rooted then out
         else out @ [''..''])
      else out @ [c])"

definition Clean :: "string \<Rightarrow> string" where
  "Clean p =
     (if p = [] then ''.''
      else
        (let rooted = (hd p = CHR ''/'');
             out = foldl (clean_step rooted) [] (split_path p)
         in if rooted then CHR ''/'' # join_sep out
            else if out = [] then ''.''
            else join_sep out))"

text \<open>\<open>filepath.Join(a, b)\<close>: leading empty elements are ignored, the rest is cleaned.\<close>

definition Join :: "string \<Rightarrow> string \<Rightarrow> string" where
  "Join a b =
     (if a \<noteq> [] then Clean (a @ ''/'' @ b)
      else if b \<noteq> [] then Clean b
      else [])"

text \<open>\<open>filepath.Base\<close>: the last element, after trailing separators are removed.\<close>

definition Base :: "string \<Rightarrow> string" where
  "Base p =
     (if p = [] then ''.''
      else
        (let p1 = rev (dropWhile (\<lambda>c. c = CHR ''/'') (rev p));
             p2 = rev (takeWhile (\<lambda>c. c \<noteq> CHR ''/'') (rev p1))
         in if p2 = [] then ''/'' else p2))"

section \<open>Rename functions\<close>

type_synonym RenameFn = "string \<Rightarrow> string"

definition DotRename :: RenameFn where
  "DotRename name = replace_first ''dot.'' ''.'' name"

definition IdentityRename :: RenameFn where
  "IdentityRename name = name"

section \<open>The file system\<close>

text \<open>
  The part of the operating system that the copy sees: a tree of directories and regular
  files.  A node is addressed by the list of its path elements from the root; the root
  always exists.  Every node records the permission argument of the call that created
  it (the mode "before umask" of the Go documentation).  Symbolic links, access rights,
  limits on name lengths and concurrent processes are outside the model.
\<close>

type_synonym FileMode = "32 word"

definition perm_0770 :: FileMode where
  "perm_0770 = 7 * 64 + 7 * 8"

definition perm_0660 :: FileMode where
  "perm_0660 = 6 * 64 + 6 * 8"

datatype errno = ENOENT | ENOTDIR | EEXIST | EISDIR

datatype node = File FileMode string | Dir FileMode

fun IsDir :: "node \<Rightarrow> bool" where
  "IsDir (Dir m) = True"
| "IsDir (File m c) = False"

type_synonym fpath = "string list"

record filesys =
  nodes :: "(fpath \<times> node) list"
  cwd :: fpath

definition root_dir :: node where
  "root_dir = Dir (7 * 64 + 5 * 8 + 5)"

definition lookup :: "filesys \<Rightarrow> fpath \<Rightarrow> node option" where
  "lookup fs q = (if q = [] then Some root_dir else map_of (nodes fs) q)"

text \<open>
  Path resolution as the kernel does it, element by element: an element is only
  looked up in a directory, \<open>.\<close> stays, \<open>..\<close> goes to the parent (the root is its own
  parent), empty elements (repeated separators) are skipped.
\<close>

fun walk :: "filesys \<Rightarrow> fpath \<Rightarrow> string list \<Rightarrow> errno + fpath" where
  "walk fs cur [] = Inr cur"
| "walk fs cur (c # cs) =
     (case lookup fs cur of
        None \<Rightarrow> Inl ENOENT
      | Some (File m x) \<Rightarrow> Inl ENOTDIR
      | Some (Dir m) \<Rightarrow>
          walk fs (if c = ''.'' then cur else if c = ''..'' then butlast cur else cur @ [c]) cs)"

definition resolve :: "filesys \<Rightarrow> string \<Rightarrow> errno + fpath" where
  "resolve fs path =
     (if path = [] then Inl ENOENT
      else walk fs (if hd path = CHR ''/'' then [] else cwd fs)
             (filter (\<lambda>c. c \<noteq> []) (split_path path)))"

definition trailing_sep :: "string \<Rightarrow> bool" where
  "trailing_sep path = (path \<noteq> [] \<and> last path = CHR ''/'')"

text \<open>\<open>os.Stat\<close> (and \<open>os.Lstat\<close>, which differs on symbolic links only).\<close>

definition Stat :: "filesys \<Rightarrow> string \<Rightarrow> errno + node" where
  "Stat fs path =
     (case resolve fs path of
        Inl e \<Rightarrow> Inl e
      | Inr q \<Rightarrow>
          (case lookup fs q of
             None \<Rightarrow> Inl ENOENT
           | Some (File m c) \<Rightarrow> if trailing_sep path then Inl ENOTDIR else Inr (File m c)
           | Some (Dir m) \<Rightarrow> Inr (Dir m)))"

text \<open>\<open>os.Mkdir\<close>: the directory must not exist, its parent must be a directory.\<close>

definition Mkdir :: "filesys \<Rightarrow> string \<Rightarrow> FileMode \<Rightarrow> errno + filesys" where
  "Mkdir fs path perm =
     (case resolve fs path of
        Inl e \<Rightarrow> Inl e
      | Inr q \<Rightarrow>
          (case lookup fs q of
             Some n \<Rightarrow> Inl EEXIST
           | None \<Rightarrow>
               (case lookup fs (butlast q) of
                  None \<Rightarrow> Inl ENOENT
                | Some (File m c) \<Rightarrow> Inl ENOTDIR
                | Some (Dir m) \<Rightarrow> Inr (fs\<lparr>nodes := (q, Dir perm) # nodes fs\<rparr>))))"

text \<open>
  \<open>os.MkdirAll\<close>, after its Go source: nothing to do when the path is a directory, an
  error when it is a file; otherwise the parent (the path up to the separator before
  its last element) is made first, then the directory itself.
\<close>

definition mkdirall_parent :: "string \<Rightarrow> string option" where
  "mkdirall_parent path =
     (let upto_i = dropWhile (\<lambda>c. c = CHR ''/'') (rev path);
          upto_j = dropWhile (\<lambda>c. c \<noteq> CHR ''/'') upto_i
      in if length upto_j > 1 then Some (rev (tl upto_j)) else None)"

lemma mkdirall_parent_shorter:
  "mkdirall_parent path = Some parent \<Longrightarrow> length parent < length path"
proof -
  assume a: "mkdirall_parent path = Some parent"
  let ?i = "dropWhile (\<lambda>c. c = CHR ''/'') (rev path)"
  let ?j = "dropWhile (\<lambda>c. c \<noteq> CHR ''/'') ?i"
  from a have p: "parent = rev (tl ?j)" and nz: "length ?j > 1"
    by (auto simp: mkdirall_parent_def Let_def split: if_splits)
  have "length ?j \<le> length ?i" by (rule length_dropWhile_le)
  also have "\<dots> \<le> length (rev path)" by (rule length_dropWhile_le)
  finally have "length ?j \<le> length path" by simp
  with p nz show ?thesis by simp
qed

function MkdirAll :: "filesys \<Rightarrow> string \<Rightarrow> FileMode \<Rightarrow> errno option \<times> filesys" where
  "MkdirAll fs path perm =
     (case Stat fs path of
        Inr (Dir m) \<Rightarrow> (None, fs)
      | Inr (File m c) \<Rightarrow> (Some ENOTDIR, fs)
      | Inl e0 \<Rightarrow>
          (case (case mkdirall_parent path of
                   None \<Rightarrow> (None, fs)
                 | Some parent \<Rightarrow> MkdirAll fs parent perm) of
             (Some e, fs1) \<Rightarrow> (Some e, fs1)
           | (None, fs1) \<Rightarrow>
               (case Mkdir fs1 path perm of
                  Inr fs2 \<Rightarrow> (None, fs2)
                | Inl e \<Rightarrow>
                    (case Stat fs1 path of
                       Inr (Dir m) \<Rightarrow> (None, fs1)
                     | Inr (File m c) \<Rightarrow> (Some e, fs1)
                     | Inl e1 \<Rightarrow> (Some e, fs1)))))"
  by pat_completeness auto
termination
  by (relation "measure (\<lambda>(fs, path, perm). length path)")
     (auto simp: mkdirall_parent_shorter)

declare MkdirAll.simps [simp del]

text \<open>
  \<open>ioutil.ReadDir\<close>: the entries of a directory, sorted by name.  An entry is the
  name and whether it is a directory (\<open>e.Name()\<close>, \<open>e.IsDir()\<close>).
\<close>

type_synonym DirEntry = "string \<times> bool"

definition child_names :: "filesys \<Rightarrow> fpath \<Rightarrow> string list" where
  "child_names fs q =
     sort (remdups (map (\<lambda>pn. last (fst pn))
       (filter (\<lambda>pn. fst pn \<noteq> [] \<and> butlast (fst pn) = q) (nodes fs))))"

definition entry_of :: "filesys \<Rightarrow> fpath \<Rightarrow> string \<Rightarrow> DirEntry" where
  "entry_of fs q name =
     (name, (case lookup fs (q @ [name]) of Some n \<Rightarrow> IsDir n | None \<Rightarrow> False))"

definition ReadDir :: "filesys \<Rightarrow> string \<Rightarrow> errno + DirEntry list" where
  "ReadDir fs path =
     (case resolve fs path of
        Inl e \<Rightarrow> Inl e
      | Inr q \<Rightarrow>
          (case lookup fs q of
             None \<Rightarrow> Inl ENOENT
           | Some (File m c) \<Rightarrow> Inl ENOTDIR
           | Some (Dir m) \<Rightarrow> Inr (map (entry_of fs q) (child_names fs q))))"

text \<open>
  \<open>os.Open\<close> yields the node the path names; reading it to its end (\<open>io.Copy\<close>,
  \<open>ioutil.ReadAll\<close>) gives the content of a regular file and fails on a directory.
\<close>

definition Open :: "filesys \<Rightarrow> string \<Rightarrow> errno + node" where
  "Open fs path = Stat fs path"

fun ReadAll :: "node \<Rightarrow> errno + string" where
  "ReadAll (File m c) = Inr c"
| "ReadAll (Dir m) = Inl EISDIR"

text \<open>
  \<open>os.OpenFile(path, O_RDWR|O_CREATE|O_EXCL, perm)\<close>: exclusive creation.  The call
  fails when anything exists at the path; otherwise an empty regular file is created
  and the handle (the address of the new node) is returned.
\<close>

definition OpenFile_excl :: "filesys \<Rightarrow> string \<Rightarrow> FileMode \<Rightarrow> errno + (fpath \<times> filesys)" where
  "OpenFile_excl fs path perm =
     (case resolve fs path of
        Inl e \<Rightarrow> Inl e
      | Inr q \<Rightarrow>
          if trailing_sep path then Inl EISDIR
          else
            (case lookup fs q of
               Some n \<Rightarrow> Inl EEXIST
             | None \<Rightarrow>
                 (case lookup fs (butlast q) of
                    None \<Rightarrow> Inl ENOENT
                  | Some (File m c) \<Rightarrow> Inl ENOTDIR
                  | Some (Dir m) \<Rightarrow> Inr (q, fs\<lparr>nodes := (q, File perm []) # nodes fs\<rparr>))))"

text \<open>Writing to an open file appends to its content.\<close>

definition Write :: "filesys \<Rightarrow> fpath \<Rightarrow> string \<Rightarrow> filesys" where
  "Write fs q out =
     (case lookup fs q of
        Some (File m c) \<Rightarrow> fs\<lparr>nodes := AList.update q (File m (c @ out)) (nodes fs)\<rparr>
      | Some (Dir m) \<Rightarrow> fs
      | None \<Rightarrow> fs)"

section \<open>Templates\<close>

text \<open>
  \<open>TemplateData\<close> is \<open>map[string]string\<close>: an association list read with \<open>map_of\<close>;
  the empty map is the empty list, so \<open>len(tmplData) != 0\<close> is \<open>tmplData \<noteq> []\<close>.
\<close>

type_synonym TemplateData = "(string \<times> string) list"

datatype tnode = TextNode string | FieldNode string

type_synonym template = "tnode list"

datatype tmpl_error =
    UnclosedAction
  | FunctionNotDefined string
  | MissingKey string
  | Unsupported

text \<open>
  The template package is a parameter of the copy: \<open>Parse\<close> is
  \<open>template.New(name).Parse(text)\<close>, and \<open>Execute\<close> is \<open>tmpl.Execute(w, data)\<close> under
  the option \<open>missingkey=error\<close>; it yields the bytes written to \<open>w\<close> and the error, if
  any, that stopped it.
\<close>

record engine =
  Parse :: "string \<Rightarrow> tmpl_error + template"
  Execute :: "template \<Rightarrow> TemplateData \<Rightarrow> string \<times> tmpl_error option"

subsection \<open>A fragment of Go's html/template\<close>

text \<open>
  The fragment covers templates made of literal text without \<open><\<close> (so that every
  action stands in HTML text context) and of actions \<open>{{.key}}\<close>, blanks allowed around
  the field.  An action that is a single identifier which is neither a keyword nor a
  predefined function is the parse error "function not defined"; an action that is not
  closed is a parse error.  Every other text gets the result \<open>Unsupported\<close>: the
  fragment does not say what Go does with it.
\<close>

datatype item = ItemText string | ItemAction string | ItemUnclosed

fun lex :: "bool \<Rightarrow> string \<Rightarrow> string \<Rightarrow> item list" where
  "lex False acc [] = [ItemText (rev acc)]"
| "lex True acc [] = [ItemUnclosed]"
| "lex inside acc [c] = lex inside (c # acc) []"
| "lex False acc (c # d # cs) =
     (if c = CHR ''{'' \<and> d = CHR ''{'' then ItemText (rev acc) # lex True [] cs
      else lex False (c # acc) (d # cs))"
| "lex True acc (c # d # cs) =
     (if c = CHR ''}'' \<and> d = CHR ''}'' then ItemAction (rev acc) # lex False [] cs
      else lex True (c # acc) (d # cs))"

definition is_letter :: "char \<Rightarrow> bool" where
  "is_letter c =
     (let n = (of_char c :: nat) in (65 \<le> n \<and> n \<le> 90) \<or> (97 \<le> n \<and> n \<le> 122))"

definition is_digit :: "char \<Rightarrow> bool" where
  "is_digit c = (let n = (of_char c :: nat) in 48 \<le> n \<and> n \<le> 57)"

definition is_blank :: "char \<Rightarrow> bool" where
  "is_blank c = (c = CHR '' '' \<or> c = CHR 0x09)"

definition trim :: "string \<Rightarrow> string" where
  "trim s = rev (dropWhile is_blank (rev (dropWhile is_blank s)))"

definition is_ident :: "string \<Rightarrow> bool" where
  "is_ident s =
     (s \<noteq> [] \<and> (is_letter (hd s) \<or> hd s = CHR ''_'') \<and>
      list_all (\<lambda>c. is_letter c \<or> is_digit c \<or> c = CHR ''_'') s)"

definition reserved_words :: "string list" where
  "reserved_words =
     [''block'', ''break'', ''continue'', ''define'', ''else'', ''end'', ''if'', ''range'',
      ''nil'', ''template'', ''with'', ''true'', ''false'',
      ''and'', ''call'', ''html'', ''index'', ''slice'', ''js'', ''len'', ''not'', ''or'',
      ''print'', ''printf'', ''println'', ''urlquery'',
      ''eq'', ''ge'', ''gt'', ''le'', ''lt'', ''ne'']"

definition parse_action :: "string \<Rightarrow> tmpl_error + tnode" where
  "parse_action body =
     (let b = trim body in
      if b \<noteq> [] \<and> hd b = CHR ''.'' \<and> is_ident (tl b) then Inr (FieldNode (tl b))
      else if is_ident b \<and> hd b \<noteq> CHR ''_'' \<and> b \<notin> set reserved_words
        then Inl (FunctionNotDefined b)
      else Inl Unsupported)"

fun parse_items :: "item list \<Rightarrow> tmpl_error + template" where
  "parse_items [] = Inr []"
| "parse_items (ItemUnclosed # its) = Inl UnclosedAction"
| "parse_items (ItemText t # its) =
     (if CHR ''<'' \<in> set t then Inl Unsupported
      else (case parse_items its of Inl e \<Rightarrow> Inl e | Inr ns \<Rightarrow> Inr (TextNode t # ns)))"
| "parse_items (ItemAction b # its) =
     (case parse_action b of
        Inl e \<Rightarrow> Inl e
      | Inr n \<Rightarrow> (case parse_items its of Inl e \<Rightarrow> Inl e | Inr ns \<Rightarrow> Inr (n # ns)))"

definition tmpl_Parse :: "string \<Rightarrow> tmpl_error + template" where
  "tmpl_Parse text = parse_items (lex False [] text)"

text \<open>
  The escaper html/template puts on an action in HTML text context: the characters of
  its replacement table are replaced, every other byte is copied.
\<close>

definition html_escape_char :: "char \<Rightarrow> string" where
  "html_escape_char c =
     (if c = CHR 0x00 then [CHR 0xEF, CHR 0xBF, CHR 0xBD]
      else if c = CHR 0x22 then ''&#34;''
      else if c = CHR ''&'' then ''&amp;''
      else if c = CHR 0x27 then ''&#39;''
      else if c = CHR ''+'' then ''&#43;''
      else if c = CHR ''<'' then ''&lt;''
      else if c = CHR ''>'' then ''&gt;''
      else [c])"

definition htmlEscaper :: "string \<Rightarrow> string" where
  "htmlEscaper s = concat (map html_escape_char s)"

text \<open>
  Execution writes node after node; a field whose key is not in the data stops it
  with an error (\<open>missingkey=error\<close>), after the output of the nodes before it.
\<close>

fun exec_nodes :: "template \<Rightarrow> TemplateData \<Rightarrow> string \<Rightarrow> string \<times> tmpl_error option" where
  "exec_nodes [] d out = (out, None)"
| "exec_nodes (TextNode t # ns) d out = exec_nodes ns d (out @ t)"
| "exec_nodes (FieldNode k # ns) d out =
     (case map_of d k of
        None \<Rightarrow> (out, Some (MissingKey k))
      | Some v \<Rightarrow> exec_nodes ns d (out @ htmlEscaper v))"

definition tmpl_Execute :: "template \<Rightarrow> TemplateData \<Rightarrow> string \<times> tmpl_error option" where
  "tmpl_Execute t d = exec_nodes t d []"

definition html_template :: engine where
  "html_template = \<lparr>Parse = tmpl_Parse, Execute = tmpl_Execute\<rparr>"

section \<open>The copy\<close>

datatype error =
    PathError string string errno
  | NotADirectory string
  | MakingDstDir error
  | ParsingFileName string tmpl_error
  | ExecutingFileName string TemplateData tmpl_error
  | OpeningSrc error
  | CreatingDst error
  | ParsingTemplate string tmpl_error
  | ExecutingTemplate string TemplateData tmpl_error

text \<open>
  \<open>copyFile\<close>.  The source is opened, then the destination is created exclusively with
  mode 0660; only then is the source read and, when there is template data, parsed and
  executed into the destination file.  Nothing removes the destination on a later
  error.
\<close>

definition copyFile ::
  "engine \<Rightarrow> string \<Rightarrow> string \<Rightarrow> TemplateData \<Rightarrow> filesys \<Rightarrow> error option \<times> filesys" where
  "copyFile E srcPath dstPath tmplData fs =
     (case Open fs srcPath of
        Inl e \<Rightarrow> (Some (OpeningSrc (PathError ''open'' srcPath e)), fs)
      | Inr srcFile \<Rightarrow>
          (case OpenFile_excl fs dstPath perm_0660 of
             Inl e \<Rightarrow> (Some (CreatingDst (PathError ''open'' dstPath e)), fs)
           | Inr (dstFile, fs1) \<Rightarrow>
               if tmplData = [] then
                 (case ReadAll srcFile of
                    Inl e \<Rightarrow> (Some (PathError ''read'' srcPath e), fs1)
                  | Inr buf \<Rightarrow> (None, Write fs1 dstFile buf))
               else
                 (case ReadAll srcFile of
                    Inl e \<Rightarrow> (Some (PathError ''read'' srcPath e), fs1)
                  | Inr buf \<Rightarrow>
                      (case Parse E buf of
                         Inl e \<Rightarrow> (Some (ParsingTemplate srcPath e), fs1)
                       | Inr tmpl \<Rightarrow>
                           (case Execute E tmpl tmplData of
                              (out, Some e) \<Rightarrow>
                                (Some (ExecutingTemplate srcPath tmplData e),
                                 Write fs1 dstFile out)
                            | (out, None) \<Rightarrow> (None, Write fs1 dstFile out))))))"

text \<open>The loop of \<open>CopyDir2\<close> over \<open>[src, dst]\<close>; the message always names \<open>dst\<close>.\<close>

fun check_dirs :: "filesys \<Rightarrow> string \<Rightarrow> string list \<Rightarrow> error option" where
  "check_dirs fs dst [] = None"
| "check_dirs fs dst (dir # dirs) =
     (case Stat fs dir of
        Inl e \<Rightarrow> Some (PathError ''stat'' dir e)
      | Inr fi \<Rightarrow>
          if \<not> IsDir fi then Some (NotADirectory dst)
          else check_dirs fs dst dirs)"

text \<open>
  The name of the destination file (the block of \<open>CopyDir2\<close> under
  \<open>len(tmplData) != 0\<close>): with template data, the suffix \<open>.template\<close> is trimmed and
  the rest is parsed and executed as a template, whatever the name was; without
  template data the name is kept.
\<close>

definition fileName :: "engine \<Rightarrow> string \<Rightarrow> string \<Rightarrow> TemplateData \<Rightarrow> error + string" where
  "fileName E src name tmplData =
     (if tmplData \<noteq> [] then
        (case Parse E (TrimSuffix name ''.template'') of
           Inl err \<Rightarrow> Inl (ParsingFileName src err)
         | Inr tmpl \<Rightarrow>
             (case Execute E tmpl tmplData of
                (buf, Some err) \<Rightarrow> Inl (ExecutingFileName src tmplData err)
              | (buf, None) \<Rightarrow> Inr buf))
      else Inr name)"

text \<open>
  \<open>CopyDir2\<close> and its loop over the entries of \<open>src\<close>.  Go puts no bound on the
  recursion, and the tree that is read is the tree that is written, so the first
  argument bounds the depth of the recursion: \<open>None\<close> is "no result within this depth".
\<close>

fun CopyDir2 ::
    "engine \<Rightarrow> nat \<Rightarrow> string \<Rightarrow> string \<Rightarrow> RenameFn \<Rightarrow> TemplateData \<Rightarrow> filesys
      \<Rightarrow> (error option \<times> filesys) option"
  and copyEntries ::
    "engine \<Rightarrow> nat \<Rightarrow> string \<Rightarrow> string \<Rightarrow> RenameFn \<Rightarrow> TemplateData \<Rightarrow> DirEntry list
      \<Rightarrow> filesys \<Rightarrow> (error option \<times> filesys) option"
where
  "CopyDir2 E 0 src dst rename tmplData fs = None"
| "CopyDir2 E (Suc n) src dst rename tmplData fs =
     (case check_dirs fs dst [src, dst] of
        Some err \<Rightarrow> Some (Some err, fs)
      | None \<Rightarrow>
          (let renamedDir = rename (Base src);
               tgtDir = Join dst renamedDir
           in case MkdirAll fs tgtDir perm_0770 of
                (Some e, fs1) \<Rightarrow> Some (Some (MakingDstDir (PathError ''mkdir'' tgtDir e)), fs1)
              | (None, fs1) \<Rightarrow>
                  (case ReadDir fs1 src of
                     Inl e \<Rightarrow> Some (Some (PathError ''open'' src e), fs1)
                   | Inr srcEntries \<Rightarrow>
                       copyEntries E n src tgtDir rename tmplData srcEntries fs1)))"
| "copyEntries E n src0 tgtDir rename tmplData [] fs = Some (None, fs)"
| "copyEntries E n src0 tgtDir rename tmplData (e # es) fs =
     (let src = Join src0 (fst e) in
      if snd e then
        (case CopyDir2 E n src tgtDir rename tmplData fs of
           None \<Rightarrow> None
         | Some (Some err, fs1) \<Rightarrow> Some (Some err, fs1)
         | Some (None, fs1) \<Rightarrow> copyEntries E n src0 tgtDir rename tmplData es fs1)
      else
        (case fileName E src (fst e) tmplData of
           Inl err \<Rightarrow> Some (Some err, fs)
         | Inr name \<Rightarrow>
             (case copyFile E src (Join tgtDir name) tmplData fs of
                (Some err, fs1) \<Rightarrow> Some (Some err, fs1)
              | (None, fs1) \<Rightarrow> copyEntries E n src0 tgtDir rename tmplData es fs1)))"

section \<open>Vocabulary of the properties\<close>

text \<open>
  \<open>extends fs fs'\<close>: every node of \<open>fs\<close> is a node of \<open>fs'\<close>, unchanged;
  \<open>adds P fs fs'\<close>: moreover every node that is new in \<open>fs'\<close> satisfies \<open>P\<close>.
  \<open>subdirs fs src ds\<close>: \<open>ds\<close> is a chain of directory entries leading down from
  \<open>src\<close>; \<open>src_at\<close> and \<open>dst_at\<close> are the arguments \<open>src\<close> and \<open>dst\<close> of the
  recursive call of \<open>CopyDir2\<close> for that chain, and \<open>tgt_at\<close> is its \<open>tgtDir\<close>.  The
  fixtures are small trees with \<open>/src\<close> and \<open>/dst\<close>.
\<close>

definition extends :: "filesys \<Rightarrow> filesys \<Rightarrow> bool" where
  "extends fs fs' =
     (cwd fs' = cwd fs \<and> (\<forall>q n. lookup fs q = Some n \<longrightarrow> lookup fs' q = Some n))"

definition adds :: "(node \<Rightarrow> bool) \<Rightarrow> filesys \<Rightarrow> filesys \<Rightarrow> bool" where
  "adds P fs fs' =
     (extends fs fs' \<and> (\<forall>q n. lookup fs q = None \<longrightarrow> lookup fs' q = Some n \<longrightarrow> P n))"

definition created_node :: "node \<Rightarrow> bool" where
  "created_node n = (case n of Dir m \<Rightarrow> m = perm_0770 | File m c \<Rightarrow> m = perm_0660)"

definition has_entry :: "filesys \<Rightarrow> string \<Rightarrow> DirEntry \<Rightarrow> bool" where
  "has_entry fs dir e = (case ReadDir fs dir of Inl err \<Rightarrow> False | Inr es \<Rightarrow> e \<in> set es)"

fun subdirs :: "filesys \<Rightarrow> string \<Rightarrow> string list \<Rightarrow> bool" where
  "subdirs fs src [] = True"
| "subdirs fs src (d # ds) = (has_entry fs src (d, True) \<and> subdirs fs (Join src d) ds)"

fun src_at :: "string \<Rightarrow> string list \<Rightarrow> string" where
  "src_at src [] = src"
| "src_at src (d # ds) = src_at (Join src d) ds"

fun dst_at :: "RenameFn \<Rightarrow> string \<Rightarrow> string \<Rightarrow> string list \<Rightarrow> string" where
  "dst_at rename src dst [] = dst"
| "dst_at rename src dst (d # ds) = dst_at rename (Join src d) (Join dst (rename (Base src))) ds"

definition tgt_at :: "RenameFn \<Rightarrow> string \<Rightarrow> string \<Rightarrow> string list \<Rightarrow> string" where
  "tgt_at rename src dst ds = Join (dst_at rename src dst ds) (rename (Base (src_at src ds)))"

definition is_directory :: "filesys \<Rightarrow> string \<Rightarrow> bool" where
  "is_directory fs path = (case Stat fs path of Inl e \<Rightarrow> False | Inr nd \<Rightarrow> IsDir nd)"

definition result_error :: "(error option \<times> filesys) option \<Rightarrow> error option option" where
  "result_error res = map_option fst res"

definition result_stat :: "(error option \<times> filesys) option \<Rightarrow> string \<Rightarrow> (errno + node) option" where
  "result_stat res path = map_option (\<lambda>r. Stat (snd r) path) res"

definition perm_0755 :: FileMode where "perm_0755 = 7 * 64 + 5 * 8 + 5"

definition perm_0644 :: FileMode where "perm_0644 = 6 * 64 + 4 * 8 + 4"

definition fixture :: filesys where
  "fixture =
     \<lparr>nodes =
        [([''dst''], Dir perm_0755),
         ([''src''], Dir perm_0755),
         ([''src'', ''dot.git''], Dir perm_0755),
         ([''src'', ''dot.git'', ''config''], File perm_0644 ''[core]''),
         ([''src'', ''foo-{{.bar}}.template''], File perm_0644 ''hello {{.bar}}'')],
      cwd = []\<rparr>"

definition fixture_spec :: filesys where
  "fixture_spec =
     \<lparr>nodes =
        [([''dst''], Dir perm_0755),
         ([''src''], Dir perm_0755),
         ([''src'', ''foo-{{bar}}.template''], File perm_0644 ''hello {{bar}}'')],
      cwd = []\<rparr>"

definition fixture_used :: filesys where
  "fixture_used =
     \<lparr>nodes =
        [([''dst''], Dir perm_0755),
         ([''dst'', ''src''], Dir perm_0755),
         ([''dst'', ''src'', ''a.txt''], File perm_0644 ''old''),
         ([''src''], Dir perm_0755),
         ([''src'', ''a.txt''], File perm_0644 ''new'')],
      cwd = []\<rparr>"


definition fixture_copied :: filesys where
  "fixture_copied =
     \<lparr>nodes =
        [([''dst'', ''src'', ''foo-{{.bar}}.template''], File perm_0660 ''hello {{.bar}}''),
         ([''dst'', ''src'', ''.git'', ''config''], File perm_0660 ''[core]''),
         ([''dst'', ''src'', ''.git''], Dir perm_0770),
         ([''dst'', ''src''], Dir perm_0770),
         ([''dst''], Dir perm_0755),
         ([''src''], Dir perm_0755),
         ([''src'', ''dot.git''], Dir perm_0755),
         ([''src'', ''dot.git'', ''config''], File perm_0644 ''[core]''),
         ([''src'', ''foo-{{.bar}}.template''], File perm_0644 ''hello {{.bar}}'')],
      cwd = []\<rparr>"



definition fixture_dotted :: filesys where
  "fixture_dotted =
     \<lparr>nodes =
        [([''dst''], Dir perm_0755),
         ([''src''], Dir perm_0755),
         ([''src'', ''foo-{{.bar}}.template''], File perm_0644 ''hello {{.bar}}'')],
      cwd = []\<rparr>"

text \<open>
  For the copy into a fresh target.  \<open>valid_name\<close>: what the name of a directory entry
  can be.  \<open>clean_elems\<close> is the list of elements \<open>Clean\<close> keeps and \<open>render\<close> writes
  such a list back as a path; \<open>normal\<close> describes the lists \<open>Clean\<close> produces.
  \<open>img\<close> is the name an entry gets in the copy (renamed when it is a directory), and
  \<open>copied fs rename s rel\<close> is the node the copy of the directory \<open>s\<close> has at the
  relative path \<open>rel\<close>: the directory itself at \<open>[]\<close>, and below it the node of the
  source entry whose image is the first element of \<open>rel\<close> (a file with its content
  and mode 0660, a directory with its own copy), nothing where no entry has that image.
  \<open>fresh_target\<close>: no node at or below the target; \<open>tree_names_ok\<close>: below \<open>s\<close>,
  entry names and their images are valid names and no two entries of a directory have
  the same image; \<open>depth_bound\<close>: one more than the longest address of a node.
\<close>

definition valid_name :: "string \<Rightarrow> bool" where
  "valid_name c = (c \<noteq> [] \<and> c \<noteq> ''.'' \<and> c \<noteq> ''..'' \<and> CHR ''/'' \<notin> set c)"

definition clean_elems :: "string \<Rightarrow> string list" where
  "clean_elems p = foldl (clean_step (hd p = CHR ''/'')) [] (split_path p)"

definition render :: "bool \<Rightarrow> string list \<Rightarrow> string" where
  "render rooted out =
     (if rooted then CHR ''/'' # join_sep out
      else if out = [] then ''.''
      else join_sep out)"

definition normal :: "bool \<Rightarrow> string list \<Rightarrow> bool" where
  "normal rooted out =
     ((\<forall>c \<in> set out. c \<noteq> [] \<and> c \<noteq> ''.'' \<and> CHR ''/'' \<notin> set c) \<and>
      (rooted \<longrightarrow> ''..'' \<notin> set out) \<and>
      (\<forall>ys zs. out = ys @ ''..'' # zs \<longrightarrow> set ys \<subseteq> {''..''}))"

definition start_of :: "filesys \<Rightarrow> string \<Rightarrow> fpath" where
  "start_of fs path = (if hd path = CHR ''/'' then [] else cwd fs)"

definition img :: "filesys \<Rightarrow> RenameFn \<Rightarrow> fpath \<Rightarrow> string \<Rightarrow> string" where
  "img fs rename s a =
     (case lookup fs (s @ [a]) of
        Some (Dir m) \<Rightarrow> rename a
      | Some (File m c) \<Rightarrow> a
      | None \<Rightarrow> a)"

fun copiedE :: "filesys \<Rightarrow> RenameFn \<Rightarrow> fpath \<Rightarrow> string list \<Rightarrow> string list \<Rightarrow> node option" where
  "copiedE fs rename s es [] = Some (Dir perm_0770)"
| "copiedE fs rename s es (x # xs) =
     (case find (\<lambda>a. img fs rename s a = x) es of
        None \<Rightarrow> None
      | Some a \<Rightarrow>
          (case lookup fs (s @ [a]) of
             None \<Rightarrow> None
           | Some (File m c) \<Rightarrow> if xs = [] then Some (File perm_0660 c) else None
           | Some (Dir m) \<Rightarrow> copiedE fs rename (s @ [a]) (child_names fs (s @ [a])) xs))"

definition copied :: "filesys \<Rightarrow> RenameFn \<Rightarrow> fpath \<Rightarrow> string list \<Rightarrow> node option" where
  "copied fs rename s rel = copiedE fs rename s (child_names fs s) rel"

definition src_tree_ok :: "filesys \<Rightarrow> RenameFn \<Rightarrow> fpath \<Rightarrow> bool" where
  "src_tree_ok fs rename s =
     (\<forall>q a na. prefix s q \<longrightarrow> lookup fs (q @ [a]) = Some na \<longrightarrow>
        valid_name a \<and> valid_name (img fs rename q a) \<and>
        (\<forall>b nb. lookup fs (q @ [b]) = Some nb \<longrightarrow>
           img fs rename q a = img fs rename q b \<longrightarrow> a = b))"

definition absent_below :: "filesys \<Rightarrow> fpath \<Rightarrow> bool" where
  "absent_below fs t = (\<forall>p. prefix t p \<longrightarrow> lookup fs p = None)"

definition shallow :: "filesys \<Rightarrow> fpath \<Rightarrow> nat \<Rightarrow> bool" where
  "shallow fs s n = (\<forall>p nd. prefix s p \<longrightarrow> lookup fs p = Some nd \<longrightarrow> length p < length s + n)"

definition state_after ::
  "filesys \<Rightarrow> RenameFn \<Rightarrow> fpath \<Rightarrow> fpath \<Rightarrow> string list \<Rightarrow> filesys \<Rightarrow> bool" where
  "state_after fs rename s t es fs' =
     (cwd fs' = cwd fs \<and>
      (\<forall>p. lookup fs' p =
             (if prefix t p then copiedE fs rename s es (drop (length t) p) else lookup fs p)))"

definition call_ok :: "engine \<Rightarrow> nat \<Rightarrow> RenameFn \<Rightarrow> bool" where
  "call_ok E k rename =
     (\<forall>src dst fs s d ms md.
        resolve fs src = Inr s \<longrightarrow> lookup fs s = Some (Dir ms) \<longrightarrow>
        resolve fs dst = Inr d \<longrightarrow> lookup fs d = Some (Dir md) \<longrightarrow>
        valid_name (rename (Base src)) \<longrightarrow>
        absent_below fs (d @ [rename (Base src)]) \<longrightarrow>
        \<not> prefix s (d @ [rename (Base src)]) \<longrightarrow>
        src_tree_ok fs rename s \<longrightarrow> shallow fs s k \<longrightarrow>
        (\<exists>fs'. CopyDir2 E k src dst rename [] fs = Some (None, fs') \<and>
               state_after fs rename s (d @ [rename (Base src)]) (child_names fs s) fs'))"

definition fresh_target :: "filesys \<Rightarrow> fpath \<Rightarrow> bool" where
  "fresh_target fs t = list_all (\<lambda>pn. \<not> prefix t (fst pn)) (nodes fs)"

definition tree_names_ok :: "filesys \<Rightarrow> RenameFn \<Rightarrow> fpath \<Rightarrow> bool" where
  "tree_names_ok fs rename s =
     list_all
       (\<lambda>pn. fst pn = [] \<or> \<not> prefix s (butlast (fst pn)) \<or>
          (valid_name (last (fst pn)) \<and>
           valid_name (img fs rename (butlast (fst pn)) (last (fst pn))) \<and>
           list_all
             (\<lambda>pn'. fst pn' = [] \<or> butlast (fst pn') \<noteq> butlast (fst pn) \<or>
                img fs rename (butlast (fst pn')) (last (fst pn'))
                  \<noteq> img fs rename (butlast (fst pn)) (last (fst pn)) \<or>
                fst pn' = fst pn)
             (nodes fs)))
       (nodes fs)"

definition depth_bound :: "filesys \<Rightarrow> nat" where
  "depth_bound fs = Suc (foldr (\<lambda>pn m. max (length (fst pn)) m) (nodes fs) 0)"

definition fixture_clash :: filesys where
  "fixture_clash =
     \<lparr>nodes =
        [([''dst''], Dir perm_0755),
         ([''src''], Dir perm_0755),
         ([''src'', ''.x''], Dir perm_0755),
         ([''src'', ''.x'', ''f''], File perm_0644 ''one''),
         ([''src'', ''dot.x''], Dir perm_0755),
         ([''src'', ''dot.x'', ''f''], File perm_0644 ''two'')],
      cwd = []\<rparr>"

section \<open>Lemmas\<close>

lemma replace_first_absent:
  "old \<noteq> [] \<Longrightarrow> \<not> sublist old s \<Longrightarrow> replace_first old new s = s"
proof (induction s)
  case Nil
  then show ?case by simp
next
  case (Cons c cs)
  from Cons.prems have np: "\<not> prefix old (c # cs)"
    using prefix_imp_sublist by blast
  from Cons.prems have "\<not> sublist old cs"
    by (simp add: sublist_Cons_right)
  with Cons.IH Cons.prems(1) have ih: "replace_first old new cs = cs" by simp
  have "replace_first old new (c # cs) = c # replace_first old new cs"
    using np by (simp only: replace_first.simps if_False)
  with ih show ?case by (simp only:)
qed

lemma prefix_append_short:
  "prefix old (xs @ ys) \<Longrightarrow> length old \<le> length xs \<Longrightarrow> prefix old xs"
  by (auto simp: prefix_append)

lemma replace_first_at:
  assumes "old \<noteq> []" "\<not> sublist old (pre @ butlast old)"
  shows "replace_first old new (pre @ old @ post) = pre @ new @ post"
  using assms
proof (induction pre)
  case Nil
  obtain c cs where eq: "old @ post = c # cs"
    using Nil.prems(1) by (cases old) auto
  have "prefix old (c # cs)" unfolding eq [symmetric] by simp
  then have "replace_first old new (c # cs) = new @ drop (length old) (c # cs)" by simp
  then show ?case unfolding eq [symmetric] by simp
next
  case (Cons c p)
  have np: "\<not> prefix old (c # p @ old @ post)"
  proof
    assume pr: "prefix old (c # p @ old @ post)"
    have "c # p @ old @ post = ((c # p) @ butlast old) @ (last old # post)"
      using Cons.prems(1) by simp
    with pr have "prefix old (((c # p) @ butlast old) @ (last old # post))" by simp
    moreover have "length old \<le> length ((c # p) @ butlast old)" by simp
    ultimately have "prefix old ((c # p) @ butlast old)" by (rule prefix_append_short)
    with Cons.prems(2) show False using prefix_imp_sublist by blast
  qed
  from Cons.prems(2) have "\<not> sublist old (p @ butlast old)"
    by (simp add: sublist_Cons_right)
  with Cons.IH Cons.prems(1) have ih: "replace_first old new (p @ old @ post) = p @ new @ post"
    by simp
  have "replace_first old new (c # p @ old @ post) = c # replace_first old new (p @ old @ post)"
    using np by (simp only: replace_first.simps if_False)
  with ih show ?case by (simp only: append_Cons)
qed

text \<open>What \<open>DotRename\<close> computes: the first occurrence is replaced, other names are kept.\<close>

lemma DotRename_first_occurrence:
  "(\<not> sublist ''dot.'' name \<longrightarrow> DotRename name = name) \<and>
   (\<not> sublist ''dot.'' (pre @ ''dot'') \<longrightarrow>
      DotRename (pre @ ''dot.'' @ post) = pre @ ''.'' @ post) \<and>
   DotRename ''dot.git'' = ''.git'' \<and>
   DotRename ''git'' = ''git'' \<and>
   DotRename ''a.dot.b'' = ''a..b''"
proof (intro conjI impI)
  assume "\<not> sublist ''dot.'' name"
  then show "DotRename name = name"
    unfolding DotRename_def by (intro replace_first_absent) simp_all
next
  assume "\<not> sublist ''dot.'' (pre @ ''dot'')"
  then have "\<not> sublist ''dot.'' (pre @ butlast ''dot.'')" by simp
  then show "DotRename (pre @ ''dot.'' @ post) = pre @ ''.'' @ post"
    unfolding DotRename_def by (intro replace_first_at) simp_all
qed (simp_all add: DotRename_def)

lemma lookup_root [simp]: "lookup fs [] = Some root_dir"
  by (simp add: lookup_def)

lemma lookup_None_nonempty: "lookup fs q = None \<Longrightarrow> q \<noteq> []"
  by (auto simp: lookup_def)

lemma lookup_cons:
  "q \<noteq> [] \<Longrightarrow> lookup (fs\<lparr>nodes := (q, n) # nodes fs\<rparr>) p = (if p = q then Some n else lookup fs p)"
  by (auto simp: lookup_def)

lemma lookup_update:
  "q \<noteq> [] \<Longrightarrow>
   lookup (fs\<lparr>nodes := AList.update q n (nodes fs)\<rparr>) p = (if p = q then Some n else lookup fs p)"
  by (auto simp: lookup_def update_conv')

lemma extends_refl [simp]: "extends fs fs"
  by (simp add: extends_def)

lemma extends_trans: "extends a b \<Longrightarrow> extends b c \<Longrightarrow> extends a c"
  by (simp add: extends_def)

lemma adds_refl [simp]: "adds P fs fs"
  by (simp add: adds_def)

lemma adds_extends: "adds P fs fs' \<Longrightarrow> extends fs fs'"
  by (simp add: adds_def)

lemma adds_trans:
  assumes "adds P a b" "adds P b c"
  shows "adds P a c"
proof -
  from assms have e: "extends a b" "extends b c" by (simp_all add: adds_def)
  have "P n" if h: "lookup a q = None" "lookup c q = Some n" for q n
  proof (cases "lookup b q")
    case None
    with assms(2) h(2) show ?thesis by (simp add: adds_def)
  next
    case (Some n')
    with e(2) have "lookup c q = Some n'" by (simp add: extends_def)
    with h(2) have "n' = n" by simp
    with Some assms(1) h(1) show ?thesis by (simp add: adds_def)
  qed
  with extends_trans [OF e] show ?thesis by (simp add: adds_def)
qed

lemma adds_weaken: "adds P fs fs' \<Longrightarrow> (\<And>n. P n \<Longrightarrow> Q n) \<Longrightarrow> adds Q fs fs'"
  by (auto simp: adds_def)

lemma adds_new_node:
  assumes "lookup fs q = None" "P n"
  shows "adds P fs (fs\<lparr>nodes := (q, n) # nodes fs\<rparr>)"
proof -
  from assms(1) have ne: "q \<noteq> []" by (rule lookup_None_nonempty)
  show ?thesis
    unfolding adds_def extends_def using assms by (auto simp: lookup_cons [OF ne])
qed

lemma Mkdir_adds:
  "Mkdir fs path perm = Inr fs' \<Longrightarrow> adds (\<lambda>n. n = Dir perm) fs fs'"
  unfolding Mkdir_def
  by (auto split: sum.splits option.splits node.splits intro!: adds_new_node)

lemma MkdirAll_adds:
  "MkdirAll fs path perm = (r, fs') \<Longrightarrow> adds (\<lambda>n. n = Dir perm) fs fs'"
proof (induction fs path perm arbitrary: r fs' rule: MkdirAll.induct)
  case (1 fs path perm)
  show ?case
  proof (cases "Stat fs path")
    case (Inr nd)
    with "1.prems" show ?thesis by (cases nd) (auto simp: MkdirAll.simps [of fs path])
  next
    case (Inl e0)
    obtain r1 fs1 where p: "(case mkdirall_parent path of None \<Rightarrow> (None, fs)
                 | Some parent \<Rightarrow> MkdirAll fs parent perm) = (r1, fs1)"
      by (cases "(case mkdirall_parent path of None \<Rightarrow> (None, fs)
                 | Some parent \<Rightarrow> MkdirAll fs parent perm)") auto
    have a1: "adds (\<lambda>n. n = Dir perm) fs fs1"
    proof (cases "mkdirall_parent path")
      case None
      with p show ?thesis by simp
    next
      case (Some parent)
      with p have "MkdirAll fs parent perm = (r1, fs1)" by simp
      with "1.IH" [OF Inl Some] show ?thesis by blast
    qed
    show ?thesis
    proof (cases r1)
      case (Some e)
      with "1.prems" Inl p a1 show ?thesis by (simp add: MkdirAll.simps [of fs path])
    next
      case None
      note r1 = None
      show ?thesis
      proof (cases "Mkdir fs1 path perm")
        case (Inr fs2)
        with "1.prems" Inl p r1 have "fs' = fs2" by (simp add: MkdirAll.simps [of fs path])
        with Mkdir_adds [OF Inr] a1 show ?thesis by (blast intro: adds_trans)
      next
        case (Inl e)
        with "1.prems" \<open>Stat fs path = Inl e0\<close> p r1 have "fs' = fs1"
          by (simp add: MkdirAll.simps [of fs path] split: sum.splits node.splits)
        with a1 show ?thesis by simp
      qed
    qed
  qed
qed

lemma OpenFile_excl_Inr:
  assumes "OpenFile_excl fs path perm = Inr (q, fs1)"
  shows "resolve fs path = Inr q \<and> \<not> trailing_sep path \<and> lookup fs q = None \<and> q \<noteq> [] \<and>
         fs1 = fs\<lparr>nodes := (q, File perm []) # nodes fs\<rparr>"
  using assms unfolding OpenFile_excl_def
  by (auto split: sum.splits option.splits node.splits if_splits dest: lookup_None_nonempty)

lemma Write_new:
  assumes "lookup fs q = None"
  shows "lookup (Write (fs\<lparr>nodes := (q, File perm []) # nodes fs\<rparr>) q out) p =
         (if p = q then Some (File perm out) else lookup fs p)"
proof -
  from assms have ne: "q \<noteq> []" by (rule lookup_None_nonempty)
  show ?thesis
    by (simp add: Write_def lookup_cons [OF ne] lookup_update [OF ne])
qed

lemma cwd_Write [simp]: "cwd (Write fs q out) = cwd fs"
  by (simp add: Write_def split: option.splits node.splits)

lemma adds_created_file:
  assumes "lookup fs q = None"
  shows "adds (\<lambda>n. \<exists>c. n = File perm c) fs (Write (fs\<lparr>nodes := (q, File perm []) # nodes fs\<rparr>) q out)"
  unfolding adds_def extends_def using assms by (auto simp: Write_new)

lemma copyFile_adds:
  assumes "copyFile E srcPath dstPath tmplData fs = (r, fs')"
  shows "adds (\<lambda>n. \<exists>c. n = File perm_0660 c) fs fs'"
proof (cases "OpenFile_excl fs dstPath perm_0660")
  case (Inl e)
  with assms have "fs' = fs" by (auto simp: copyFile_def split: sum.splits)
  then show ?thesis by simp
next
  case (Inr qf)
  obtain q fs1 where qf: "qf = (q, fs1)" by (cases qf)
  from OpenFile_excl_Inr [OF Inr [unfolded qf]]
  have n: "lookup fs q = None" and fs1: "fs1 = fs\<lparr>nodes := (q, File perm_0660 []) # nodes fs\<rparr>"
    by simp_all
  have w: "\<And>out. adds (\<lambda>n. \<exists>c. n = File perm_0660 c) fs (Write fs1 q out)"
    unfolding fs1 by (rule adds_created_file [OF n])
  have e: "adds (\<lambda>n. \<exists>c. n = File perm_0660 c) fs fs1"
    unfolding fs1 by (rule adds_new_node [OF n]) simp
  from assms Inr qf have "fs' = fs \<or> fs' = fs1 \<or> (\<exists>out. fs' = Write fs1 q out)"
    by (auto simp: copyFile_def split: sum.splits if_splits prod.splits option.splits)
  with w e show ?thesis by auto
qed

lemma created_node_Dir: "n = Dir perm_0770 \<Longrightarrow> created_node n"
  by (simp add: created_node_def)

lemma created_node_File: "\<exists>c. n = File perm_0660 c \<Longrightarrow> created_node n"
  by (auto simp: created_node_def)

lemma CopyDir2_Suc_cases:
  assumes "CopyDir2 E (Suc n) src dst rename tmplData fs = Some (r, fs')"
  obtains
    (precondition) err where "check_dirs fs dst [src, dst] = Some err" "r = Some err" "fs' = fs"
  | (mkdir) e where "check_dirs fs dst [src, dst] = None"
      "MkdirAll fs (Join dst (rename (Base src))) perm_0770 = (Some e, fs')"
      "r = Some (MakingDstDir (PathError ''mkdir'' (Join dst (rename (Base src))) e))"
  | (readdir) e where "check_dirs fs dst [src, dst] = None"
      "MkdirAll fs (Join dst (rename (Base src))) perm_0770 = (None, fs')"
      "ReadDir fs' src = Inl e" "r = Some (PathError ''open'' src e)"
  | (entries) fs1 srcEntries where "check_dirs fs dst [src, dst] = None"
      "MkdirAll fs (Join dst (rename (Base src))) perm_0770 = (None, fs1)"
      "ReadDir fs1 src = Inr srcEntries"
      "copyEntries E n src (Join dst (rename (Base src))) rename tmplData srcEntries fs1
         = Some (r, fs')"
  using assms
  by (auto simp: Let_def simp del: check_dirs.simps split: option.splits prod.splits sum.splits)

lemma copyEntries_Cons_cases:
  assumes "copyEntries E n src0 tgtDir rename tmplData (e # es) fs = Some (r, fs')"
  obtains
    (dir_error) err where "snd e"
      "CopyDir2 E n (Join src0 (fst e)) tgtDir rename tmplData fs = Some (Some err, fs')"
      "r = Some err"
  | (dir_done) fs1 where "snd e"
      "CopyDir2 E n (Join src0 (fst e)) tgtDir rename tmplData fs = Some (None, fs1)"
      "copyEntries E n src0 tgtDir rename tmplData es fs1 = Some (r, fs')"
  | (name_error) err where "\<not> snd e"
      "fileName E (Join src0 (fst e)) (fst e) tmplData = Inl err" "r = Some err" "fs' = fs"
  | (file_error) name err where "\<not> snd e"
      "fileName E (Join src0 (fst e)) (fst e) tmplData = Inr name"
      "copyFile E (Join src0 (fst e)) (Join tgtDir name) tmplData fs = (Some err, fs')"
      "r = Some err"
  | (file_done) name fs1 where "\<not> snd e"
      "fileName E (Join src0 (fst e)) (fst e) tmplData = Inr name"
      "copyFile E (Join src0 (fst e)) (Join tgtDir name) tmplData fs = (None, fs1)"
      "copyEntries E n src0 tgtDir rename tmplData es fs1 = Some (r, fs')"
  using assms
  by (auto simp: Let_def split: option.splits prod.splits sum.splits if_splits)

lemma copyFile_created: "copyFile E s d t fs = (r, fs') \<Longrightarrow> adds created_node fs fs'"
  by (rule adds_weaken [OF copyFile_adds]) (auto intro: created_node_File)

lemma copyEntries_adds_step:
  assumes dir: "\<And>src dst fs r fs'. CopyDir2 E n src dst rename tmplData fs = Some (r, fs')
            \<Longrightarrow> adds created_node fs fs'"
  shows "copyEntries E n src0 tgtDir rename tmplData es fs = Some (r, fs')
           \<Longrightarrow> adds created_node fs fs'"
proof (induction es arbitrary: fs)
  case Nil
  then show ?case by simp
next
  case (Cons e es)
  from Cons.prems show ?case
  proof (cases rule: copyEntries_Cons_cases)
    case (dir_error err)
    then show ?thesis using dir by blast
  next
    case (dir_done fs1)
    from dir [OF dir_done(2)] Cons.IH [OF dir_done(3)] show ?thesis by (rule adds_trans)
  next
    case (name_error err)
    then show ?thesis by simp
  next
    case (file_error name err)
    then show ?thesis using copyFile_created by blast
  next
    case (file_done name fs1)
    from copyFile_created [OF file_done(3)] Cons.IH [OF file_done(4)]
    show ?thesis by (rule adds_trans)
  qed
qed

lemma CopyDir2_adds:
  "CopyDir2 E n src dst rename tmplData fs = Some (r, fs') \<Longrightarrow> adds created_node fs fs'"
proof (induction n arbitrary: src dst fs r fs')
  case 0
  then show ?case by simp
next
  case (Suc n)
  from Suc.prems show ?case
  proof (cases rule: CopyDir2_Suc_cases)
    case (precondition err)
    then show ?thesis by simp
  next
    case (mkdir e)
    from MkdirAll_adds [OF mkdir(2)] show ?thesis
      by (rule adds_weaken) (rule created_node_Dir)
  next
    case (readdir e)
    from MkdirAll_adds [OF readdir(2)] show ?thesis
      by (rule adds_weaken) (rule created_node_Dir)
  next
    case (entries fs1 srcEntries)
    have "adds created_node fs fs1"
      by (rule adds_weaken [OF MkdirAll_adds [OF entries(2)]]) (rule created_node_Dir)
    moreover have "adds created_node fs1 fs'"
      using Suc.IH entries(4) by (rule copyEntries_adds_step)
    ultimately show ?thesis by (rule adds_trans)
  qed
qed

lemma copyEntries_adds:
  "copyEntries E n src0 tgtDir rename tmplData es fs = Some (r, fs') \<Longrightarrow> adds created_node fs fs'"
  using CopyDir2_adds by (rule copyEntries_adds_step)

subsection \<open>Monotonicity\<close>

lemma walk_extends:
  "extends fs fs' \<Longrightarrow> walk fs cur cs = Inr q \<Longrightarrow> walk fs' cur cs = Inr q"
proof (induction cs arbitrary: cur)
  case Nil
  then show ?case by simp
next
  case (Cons c cs)
  from Cons.prems(2) obtain m where d: "lookup fs cur = Some (Dir m)"
    by (auto split: option.splits node.splits)
  with Cons.prems(1) have d': "lookup fs' cur = Some (Dir m)" by (simp add: extends_def)
  from Cons.prems(2) d
  have "walk fs (if c = ''.'' then cur else if c = ''..'' then butlast cur else cur @ [c]) cs = Inr q"
    by simp
  from Cons.IH [OF Cons.prems(1) this] d' show ?case by simp
qed

lemma extends_lookup: "extends fs fs' \<Longrightarrow> lookup fs q = Some n \<Longrightarrow> lookup fs' q = Some n"
  by (simp add: extends_def)

lemma extends_cwd: "extends fs fs' \<Longrightarrow> cwd fs' = cwd fs"
  by (simp add: extends_def)

lemma resolve_extends:
  assumes e: "extends fs fs'" and r: "resolve fs path = Inr q"
  shows "resolve fs' path = Inr q"
proof -
  from r have ne: "path \<noteq> []"
    and w: "walk fs (if hd path = CHR ''/'' then [] else cwd fs)
              (filter (\<lambda>c. c \<noteq> []) (split_path path)) = Inr q"
    by (simp_all add: resolve_def split: if_splits)
  from walk_extends [OF e w] ne extends_cwd [OF e] show ?thesis
    by (auto simp: resolve_def)
qed

lemma Stat_Inr:
  "Stat fs path = Inr nd \<longleftrightarrow>
     (\<exists>q. resolve fs path = Inr q \<and> lookup fs q = Some nd \<and> (IsDir nd \<or> \<not> trailing_sep path))"
  unfolding Stat_def by (cases nd) (auto split: sum.splits option.splits node.splits)

lemma Stat_extends:
  assumes e: "extends fs fs'" and s: "Stat fs path = Inr nd"
  shows "Stat fs' path = Inr nd"
proof -
  from s obtain q where q: "resolve fs path = Inr q" "lookup fs q = Some nd"
      "IsDir nd \<or> \<not> trailing_sep path"
    unfolding Stat_Inr by blast
  from resolve_extends [OF e q(1)] extends_lookup [OF e q(2)] q(3)
  show ?thesis unfolding Stat_Inr by blast
qed

lemma child_names_iff:
  "name \<in> set (child_names fs q) \<longleftrightarrow> (\<exists>p \<in> fst ` set (nodes fs). p \<noteq> [] \<and> butlast p = q \<and> last p = name)"
  unfolding child_names_def by auto

lemma child_names_lookup:
  "name \<in> set (child_names fs q) \<longleftrightarrow> lookup fs (q @ [name]) \<noteq> None"
proof -
  have "(\<exists>p \<in> fst ` set (nodes fs). p \<noteq> [] \<and> butlast p = q \<and> last p = name)
        \<longleftrightarrow> q @ [name] \<in> fst ` set (nodes fs)"
  proof
    assume "\<exists>p \<in> fst ` set (nodes fs). p \<noteq> [] \<and> butlast p = q \<and> last p = name"
    then obtain p where p: "p \<in> fst ` set (nodes fs)" "p \<noteq> []" "butlast p = q" "last p = name"
      by blast
    from p(2) have "butlast p @ [last p] = p" by (rule append_butlast_last_id)
    with p(3,4) have "p = q @ [name]" by simp
    with p(1) show "q @ [name] \<in> fst ` set (nodes fs)" by simp
  next
    assume "q @ [name] \<in> fst ` set (nodes fs)"
    then show "\<exists>p \<in> fst ` set (nodes fs). p \<noteq> [] \<and> butlast p = q \<and> last p = name"
      by (intro bexI [of _ "q @ [name]"]) simp_all
  qed
  then show ?thesis
    unfolding child_names_iff by (simp add: lookup_def map_of_eq_None_iff)
qed

lemma ReadDir_Inr:
  "ReadDir fs path = Inr es \<longleftrightarrow>
     (\<exists>q m. resolve fs path = Inr q \<and> lookup fs q = Some (Dir m) \<and>
            es = map (entry_of fs q) (child_names fs q))"
  unfolding ReadDir_def by (auto split: sum.splits option.splits node.splits)

lemma ReadDir_extends:
  assumes "extends fs fs'" "ReadDir fs path = Inr es"
  shows "\<exists>es'. ReadDir fs' path = Inr es' \<and> set es \<subseteq> set es'"
proof -
  from assms(2) obtain q m where q: "resolve fs path = Inr q" "lookup fs q = Some (Dir m)"
      "es = map (entry_of fs q) (child_names fs q)"
    unfolding ReadDir_Inr by blast
  from q(1,2) assms(1) have q': "resolve fs' path = Inr q" "lookup fs' q = Some (Dir m)"
    by (blast intro: resolve_extends extends_lookup)+
  have "entry_of fs q name \<in> set (map (entry_of fs' q) (child_names fs' q))"
    if "name \<in> set (child_names fs q)" for name
  proof -
    from that obtain nd where nd: "lookup fs (q @ [name]) = Some nd"
      unfolding child_names_lookup by blast
    with assms(1) have nd': "lookup fs' (q @ [name]) = Some nd" by (simp add: extends_def)
    then have "name \<in> set (child_names fs' q)" unfolding child_names_lookup by simp
    moreover from nd nd' have "entry_of fs q name = entry_of fs' q name"
      by (simp add: entry_of_def)
    ultimately show ?thesis by auto
  qed
  with q(3) have "set es \<subseteq> set (map (entry_of fs' q) (child_names fs' q))" by auto
  moreover from q' have "ReadDir fs' path = Inr (map (entry_of fs' q) (child_names fs' q))"
    unfolding ReadDir_Inr by blast
  ultimately show ?thesis by blast
qed

lemma has_entry_extends:
  assumes "extends fs fs'" "has_entry fs dir e"
  shows "has_entry fs' dir e"
proof -
  from assms(2) obtain es where es: "ReadDir fs dir = Inr es" "e \<in> set es"
    by (auto simp: has_entry_def split: sum.splits)
  from ReadDir_extends [OF assms(1) es(1)] es(2) show ?thesis
    by (auto simp: has_entry_def)
qed

lemma subdirs_extends:
  "extends fs fs' \<Longrightarrow> subdirs fs src ds \<Longrightarrow> subdirs fs' src ds"
  by (induction ds arbitrary: src) (auto intro: has_entry_extends)

lemma CopyDir2_extends:
  "CopyDir2 E n src dst rename tmplData fs = Some (r, fs') \<Longrightarrow> extends fs fs'"
  by (rule adds_extends [OF CopyDir2_adds])

lemma copyEntries_extends:
  "copyEntries E n src0 tgtDir rename tmplData es fs = Some (r, fs') \<Longrightarrow> extends fs fs'"
  by (rule adds_extends [OF copyEntries_adds])

lemma copyFile_extends:
  "copyFile E s d t fs = (r, fs') \<Longrightarrow> extends fs fs'"
  by (rule adds_extends [OF copyFile_created])

text \<open>A loop that ends without error has handled each of its entries.\<close>

lemma copyEntries_covers_dir:
  assumes "copyEntries E n src0 tgtDir rename tmplData es fs = Some (None, fs')"
    and "(d, True) \<in> set es"
  shows "\<exists>fsa fsb. extends fs fsa \<and>
           CopyDir2 E n (Join src0 d) tgtDir rename tmplData fsa = Some (None, fsb) \<and>
           extends fsb fs'"
  using assms
proof (induction es arbitrary: fs)
  case Nil
  then show ?case by simp
next
  case (Cons e es)
  from Cons.prems(1) show ?case
  proof (cases rule: copyEntries_Cons_cases)
    case (dir_done fs1)
    show ?thesis
    proof (cases "e = (d, True)")
      case True
      with dir_done(2) have "CopyDir2 E n (Join src0 d) tgtDir rename tmplData fs = Some (None, fs1)"
        by simp
      moreover have "extends fs1 fs'" using dir_done(3) by (rule copyEntries_extends)
      ultimately show ?thesis using extends_refl by blast
    next
      case False
      with Cons.prems(2) have "(d, True) \<in> set es" by simp
      from Cons.IH [OF dir_done(3) this] obtain fsa fsb where
        "extends fs1 fsa" "CopyDir2 E n (Join src0 d) tgtDir rename tmplData fsa = Some (None, fsb)"
        "extends fsb fs'" by blast
      moreover from dir_done(2) have "extends fs fs1" by (rule CopyDir2_extends)
      ultimately show ?thesis by (blast intro: extends_trans)
    qed
  next
    case (file_done name fs1)
    from file_done(1) Cons.prems(2) have "(d, True) \<in> set es" by auto
    from Cons.IH [OF file_done(4) this] obtain fsa fsb where
      "extends fs1 fsa" "CopyDir2 E n (Join src0 d) tgtDir rename tmplData fsa = Some (None, fsb)"
      "extends fsb fs'" by blast
    moreover from file_done(3) have "extends fs fs1" by (rule copyFile_extends)
    ultimately show ?thesis by (blast intro: extends_trans)
  qed simp_all
qed


text \<open>A call that ends without error has read the entries of \<open>src\<close> after making the target.\<close>

lemma CopyDir2_success:
  assumes "CopyDir2 E n src dst rename tmplData fs = Some (None, fs')"
  obtains k fs1 srcEntries where "n = Suc k"
    "MkdirAll fs (Join dst (rename (Base src))) perm_0770 = (None, fs1)"
    "ReadDir fs1 src = Inr srcEntries"
    "copyEntries E k src (Join dst (rename (Base src))) rename tmplData srcEntries fs1
       = Some (None, fs')"
proof -
  from assms obtain k where k: "n = Suc k" by (cases n) auto
  from assms [unfolded k] show ?thesis
    by (cases rule: CopyDir2_Suc_cases) (auto intro: that [OF k])
qed

lemma has_entry_ReadDir:
  "has_entry fs dir e \<Longrightarrow> extends fs fs1 \<Longrightarrow> ReadDir fs1 dir = Inr es \<Longrightarrow> e \<in> set es"
  using has_entry_extends [of fs fs1 dir e] by (simp add: has_entry_def)

text \<open>Every directory below \<open>src\<close> is the source of a recursive call that ends without error.\<close>

lemma CopyDir2_reaches:
  assumes "CopyDir2 E n src dst rename tmplData fs = Some (None, fs')"
    and "subdirs fs src ds"
  shows "\<exists>k fsa fsb. extends fs fsa \<and>
           CopyDir2 E k (src_at src ds) (dst_at rename src dst ds) rename tmplData fsa
             = Some (None, fsb) \<and>
           extends fsb fs'"
  using assms
proof (induction ds arbitrary: n src dst fs fs')
  case Nil
  then show ?case using extends_refl by fastforce
next
  case (Cons d ds)
  from Cons.prems(1) obtain k fs1 srcEntries where run: "n = Suc k"
    "MkdirAll fs (Join dst (rename (Base src))) perm_0770 = (None, fs1)"
    "ReadDir fs1 src = Inr srcEntries"
    "copyEntries E k src (Join dst (rename (Base src))) rename tmplData srcEntries fs1
       = Some (None, fs')"
    by (rule CopyDir2_success)
  have e1: "extends fs fs1" by (rule adds_extends [OF MkdirAll_adds [OF run(2)]])
  from Cons.prems(2) have "has_entry fs src (d, True)" by simp
  then have "(d, True) \<in> set srcEntries" using e1 run(3) by (rule has_entry_ReadDir)
  from copyEntries_covers_dir [OF run(4) this] obtain fsa fsb where sub:
    "extends fs1 fsa"
    "CopyDir2 E k (Join src d) (Join dst (rename (Base src))) rename tmplData fsa = Some (None, fsb)"
    "extends fsb fs'" by blast
  have e2: "extends fs fsa" using e1 sub(1) by (rule extends_trans)
  from Cons.prems(2) have "subdirs fs (Join src d) ds" by simp
  with e2 have "subdirs fsa (Join src d) ds" by (rule subdirs_extends)
  from Cons.IH [OF sub(2) this] obtain k' fsa' fsb' where
    "extends fsa fsa'"
    "CopyDir2 E k' (src_at (Join src d) ds)
       (dst_at rename (Join src d) (Join dst (rename (Base src))) ds) rename tmplData fsa'
     = Some (None, fsb')"
    "extends fsb' fsb" by blast
  with e2 sub(3) show ?case by (auto intro: extends_trans)
qed

lemma Mkdir_Stat:
  assumes "Mkdir fs path perm = Inr fs'"
  shows "Stat fs' path = Inr (Dir perm)"
proof -
  from assms obtain q where q: "resolve fs path = Inr q" "lookup fs q = None"
      "fs' = fs\<lparr>nodes := (q, Dir perm) # nodes fs\<rparr>"
    unfolding Mkdir_def by (auto split: sum.splits option.splits node.splits)
  from Mkdir_adds [OF assms] have "extends fs fs'" by (rule adds_extends)
  then have "resolve fs' path = Inr q" using q(1) by (rule resolve_extends)
  moreover from q(2,3) have "lookup fs' q = Some (Dir perm)"
    by (simp add: lookup_cons [OF lookup_None_nonempty])
  ultimately show ?thesis unfolding Stat_Inr by simp
qed

lemma MkdirAll_success:
  assumes "MkdirAll fs path perm = (None, fs')"
  shows "\<exists>m. Stat fs' path = Inr (Dir m)"
proof (cases "Stat fs path")
  case (Inr nd)
  with assms show ?thesis by (cases nd) (auto simp: MkdirAll.simps [of fs path])
next
  case (Inl e0)
  obtain r1 fs1 where p: "(case mkdirall_parent path of None \<Rightarrow> (None, fs)
               | Some parent \<Rightarrow> MkdirAll fs parent perm) = (r1, fs1)"
    by (cases "(case mkdirall_parent path of None \<Rightarrow> (None, fs)
               | Some parent \<Rightarrow> MkdirAll fs parent perm)") auto
  from assms Inl p have r1: "r1 = None"
    by (cases r1) (auto simp: MkdirAll.simps [of fs path])
  show ?thesis
  proof (cases "Mkdir fs1 path perm")
    case (Inr fs2)
    with assms Inl p r1 have "fs' = fs2" by (simp add: MkdirAll.simps [of fs path])
    with Mkdir_Stat [OF Inr] show ?thesis by blast
  next
    case (Inl e)
    with assms \<open>Stat fs path = Inl e0\<close> p r1 show ?thesis
      by (auto simp: MkdirAll.simps [of fs path] split: sum.splits node.splits)
  qed
qed


lemma CopyDir2_makes_target:
  assumes "CopyDir2 E n src dst rename tmplData fs = Some (None, fs')"
  shows "\<exists>m. Stat fs' (Join dst (rename (Base src))) = Inr (Dir m)"
proof -
  from assms obtain k fs1 srcEntries where run:
    "MkdirAll fs (Join dst (rename (Base src))) perm_0770 = (None, fs1)"
    "copyEntries E k src (Join dst (rename (Base src))) rename tmplData srcEntries fs1
       = Some (None, fs')"
    by (rule CopyDir2_success)
  from MkdirAll_success [OF run(1)] obtain m where
    "Stat fs1 (Join dst (rename (Base src))) = Inr (Dir m)" by blast
  with copyEntries_extends [OF run(2)] show ?thesis by (blast intro: Stat_extends)
qed



lemma CopyDir2_dir_at:
  assumes run: "CopyDir2 E n src dst rename tmplData fs = Some (None, fs')"
    and chain: "subdirs fs src ds"
  shows "\<exists>m. Stat fs' (tgt_at rename src dst ds) = Inr (Dir m)"
proof -
  from CopyDir2_reaches [OF run chain] obtain k fsa fsb where sub:
    "CopyDir2 E k (src_at src ds) (dst_at rename src dst ds) rename tmplData fsa = Some (None, fsb)"
    "extends fsb fs'" by blast
  from CopyDir2_makes_target [OF sub(1)] sub(2) show ?thesis
    unfolding tgt_at_def by (blast intro: Stat_extends)
qed


lemma check_dirs_not_directory:
  assumes "\<not> is_directory fs src \<or> \<not> is_directory fs dst"
  shows "\<exists>err. check_dirs fs dst [src, dst] = Some err"
  using assms
  by (auto simp: is_directory_def split: sum.splits)

subsection \<open>The copy into a fresh target\<close>

lemma Clean_render:
  "p \<noteq> [] \<Longrightarrow> Clean p = render (hd p = CHR ''/'') (clean_elems p)"
  by (simp add: Clean_def render_def clean_elems_def Let_def)

lemma split_path_nonempty [simp]: "split_path s \<noteq> []"
  by (induction s) (auto split: list.splits)

lemma split_path_append:
  "split_path (a @ CHR ''/'' # b) = split_path a @ split_path b"
proof (induction a)
  case Nil
  show ?case by simp
next
  case (Cons c a)
  show ?case
  proof (cases "c = CHR ''/''")
    case True
    with Cons show ?thesis by simp
  next
    case False
    obtain x xs where x: "split_path a = x # xs" by (cases "split_path a") auto
    with Cons False show ?thesis by simp
  qed
qed

lemma split_path_no_sep: "CHR ''/'' \<notin> set e \<Longrightarrow> split_path e = [e]"
  by (induction e) auto

lemma split_path_elems: "c \<in> set (split_path s) \<Longrightarrow> CHR ''/'' \<notin> set c"
proof (induction s arbitrary: c)
  case Nil
  then show ?case by simp
next
  case (Cons d s)
  obtain x xs where x: "split_path s = x # xs" by (cases "split_path s") auto
  with Cons show ?case by (auto split: if_splits)
qed

lemma split_path_join_sep:
  "out \<noteq> [] \<Longrightarrow> \<forall>c \<in> set out. CHR ''/'' \<notin> set c \<Longrightarrow> split_path (join_sep out) = out"
proof (induction out rule: join_sep.induct)
  case 1
  then show ?case by simp
next
  case (2 x)
  then show ?case by (simp add: split_path_no_sep)
next
  case (3 x y ys)
  then have "split_path (join_sep (y # ys)) = y # ys" by simp
  moreover from 3 have "split_path x = [x]" by (simp add: split_path_no_sep)
  ultimately show ?case by (simp add: split_path_append)
qed

lemma normal_Nil [simp]: "normal rooted []"
  by (simp add: normal_def)

lemma normal_butlast: "normal rooted out \<Longrightarrow> normal rooted (butlast out)"
proof -
  assume n: "normal rooted out"
  have "set ys \<subseteq> {''..''}" if "butlast out = ys @ ''..'' # zs" for ys zs
  proof -
    from that have "out \<noteq> []" by auto
    then have "out = butlast out @ [last out]" by simp
    with that have "out = ys @ ''..'' # (zs @ [last out])" by simp
    with n show ?thesis unfolding normal_def by blast
  qed
  with n show ?thesis
    unfolding normal_def by (auto dest: in_set_butlastD)
qed

lemma normal_snoc_name:
  assumes "normal rooted out" "c \<noteq> []" "c \<noteq> ''.''" "c \<noteq> ''..''" "CHR ''/'' \<notin> set c"
  shows "normal rooted (out @ [c])"
proof -
  have "set ys \<subseteq> {''..''}" if h: "out @ [c] = ys @ ''..'' # zs" for ys zs
  proof (cases zs rule: rev_cases)
    case Nil
    with h assms(4) show ?thesis by simp
  next
    case (snoc zs' z)
    with h have "out = ys @ ''..'' # zs'" by simp
    with assms(1) show ?thesis unfolding normal_def by blast
  qed
  with assms show ?thesis unfolding normal_def by auto
qed

lemma normal_snoc_dotdot:
  assumes "normal False out" "out = [] \<or> last out = ''..''"
  shows "normal False (out @ [''..''])"
proof -
  have all: "set out \<subseteq> {''..''}"
  proof (cases out rule: rev_cases)
    case Nil
    then show ?thesis by simp
  next
    case (snoc ys y)
    with assms(2) have y: "y = ''..''" by simp
    with snoc have "out = ys @ ''..'' # []" by simp
    with assms(1) have "set ys \<subseteq> {''..''}" unfolding normal_def by blast
    with snoc y show ?thesis by auto
  qed
  have "set ys \<subseteq> {''..''}" if h: "out @ [''..''] = ys @ ''..'' # zs" for ys zs
  proof -
    have "set ys \<subseteq> set (ys @ ''..'' # zs)" by auto
    with h have "set ys \<subseteq> set (out @ [''..''])" by simp
    with all show ?thesis by auto
  qed
  with assms(1) all show ?thesis unfolding normal_def by auto
qed

lemma normal_clean_step:
  assumes "normal rooted out" "CHR ''/'' \<notin> set c"
  shows "normal rooted (clean_step rooted out c)"
proof -
  consider (skip) "c = [] \<or> c = ''.''"
    | (pop) "c = ''..''" "out \<noteq> []" "last out \<noteq> ''..''"
    | (root) "c = ''..''" "out = [] \<or> last out = ''..''" "rooted"
    | (push) "c = ''..''" "out = [] \<or> last out = ''..''" "\<not> rooted"
    | (name) "c \<noteq> []" "c \<noteq> ''.''" "c \<noteq> ''..''"
    by blast
  then show ?thesis
  proof cases
    case skip
    with assms show ?thesis by (auto simp: clean_step_def)
  next
    case pop
    with normal_butlast [OF assms(1)] show ?thesis by (simp add: clean_step_def)
  next
    case root
    with assms show ?thesis by (auto simp: clean_step_def)
  next
    case push
    with normal_snoc_dotdot [of out] assms(1) show ?thesis by (auto simp: clean_step_def)
  next
    case name
    with normal_snoc_name [OF assms(1) name assms(2)] show ?thesis by (simp add: clean_step_def)
  qed
qed

lemma normal_foldl:
  "normal rooted acc \<Longrightarrow> \<forall>c \<in> set cs. CHR ''/'' \<notin> set c \<Longrightarrow>
   normal rooted (foldl (clean_step rooted) acc cs)"
  by (induction cs arbitrary: acc) (simp_all add: normal_clean_step)

lemma normal_clean_elems: "normal (hd p = CHR ''/'') (clean_elems p)"
  unfolding clean_elems_def by (rule normal_foldl) (simp_all add: split_path_elems)

lemma foldl_normal_id:
  "normal rooted (acc @ cs) \<Longrightarrow> foldl (clean_step rooted) acc cs = acc @ cs"
proof (induction cs arbitrary: acc)
  case Nil
  then show ?case by simp
next
  case (Cons c cs)
  from Cons.prems have n: "normal rooted ((acc @ [c]) @ cs)" by simp
  have c: "c \<noteq> []" "c \<noteq> ''.''" using Cons.prems unfolding normal_def by auto
  have "clean_step rooted acc c = acc @ [c]"
  proof (cases "c = ''..''")
    case False
    with c show ?thesis by (simp add: clean_step_def)
  next
    case True
    with Cons.prems have nr: "\<not> rooted" and "set acc \<subseteq> {''..''}"
      unfolding normal_def by auto
    then have "acc = [] \<or> last acc = ''..''" by (cases acc rule: rev_cases) auto
    with True nr show ?thesis by (auto simp: clean_step_def)
  qed
  with Cons.IH [OF n] show ?case by simp
qed

lemma hd_join_sep:
  "out \<noteq> [] \<Longrightarrow> \<forall>c \<in> set out. c \<noteq> [] \<and> CHR ''/'' \<notin> set c \<Longrightarrow> hd (join_sep out) \<noteq> CHR ''/''"
proof (induction out rule: join_sep.induct)
  case 1
  then show ?case by simp
next
  case (2 x)
  then show ?case by (cases x) auto
next
  case (3 x y ys)
  then show ?case by (cases x) auto
qed

lemma join_sep_nonempty:
  "out \<noteq> [] \<Longrightarrow> \<forall>c \<in> set out. c \<noteq> [] \<Longrightarrow> join_sep out \<noteq> []"
  by (induction out rule: join_sep.induct) auto

lemma length_join_sep:
  "\<forall>c \<in> set out. c \<noteq> [] \<Longrightarrow> length out \<le> length (join_sep out)"
proof (induction out rule: join_sep.induct)
  case 1
  then show ?case by simp
next
  case (2 x)
  then show ?case by (cases x) auto
next
  case (3 x y ys)
  then show ?case by (cases x) auto
qed

lemma render_facts:
  assumes "normal rooted out" "out \<noteq> []"
  shows "render rooted out \<noteq> []"
    and "(hd (render rooted out) = CHR ''/'') = rooted"
    and "clean_elems (render rooted out) = out"
    and "length out \<le> length (render rooted out)"
proof -
  from assms(1) have el: "\<forall>c \<in> set out. c \<noteq> [] \<and> CHR ''/'' \<notin> set c"
    unfolding normal_def by auto
  then have el1: "\<forall>c \<in> set out. CHR ''/'' \<notin> set c" and el2: "\<forall>c \<in> set out. c \<noteq> []" by auto
  show ne: "render rooted out \<noteq> []"
    using join_sep_nonempty [OF assms(2) el2] by (simp add: render_def)
  show hd: "(hd (render rooted out) = CHR ''/'') = rooted"
    using hd_join_sep [OF assms(2) el] assms(2) by (simp add: render_def)
  have sp: "filter (\<lambda>c. c \<noteq> []) (split_path (render rooted out)) = out \<and>
            foldl (clean_step rooted) [] (split_path (render rooted out)) = out"
  proof (cases rooted)
    case True
    have "split_path (render rooted out) = [] # out"
      using split_path_append [of "[]" "join_sep out"] split_path_join_sep [OF assms(2) el1] True
      by (simp add: render_def)
    moreover have "clean_step rooted [] [] = []" by (simp add: clean_step_def)
    ultimately show ?thesis using foldl_normal_id [of rooted "[]" out] assms(1) el2
      by (simp add: filter_id_conv)
  next
    case False
    with assms(2) have "split_path (render rooted out) = out"
      using split_path_join_sep [OF assms(2) el1] by (simp add: render_def)
    then show ?thesis using foldl_normal_id [of rooted "[]" out] assms(1) el2
      by (simp add: filter_id_conv)
  qed
  with hd show "clean_elems (render rooted out) = out" by (simp add: clean_elems_def)
  show "length out \<le> length (render rooted out)"
    using length_join_sep [OF el2] assms(2) by (simp add: render_def)
qed

lemma valid_name_normal_snoc:
  "normal rooted out \<Longrightarrow> valid_name e \<Longrightarrow> normal rooted (out @ [e])"
  unfolding valid_name_def by (intro normal_snoc_name) simp_all

lemma Join_valid_name:
  assumes "src \<noteq> []" "valid_name e"
  shows "Join src e = render (hd src = CHR ''/'') (clean_elems src @ [e])"
proof -
  from assms(2) have e: "e \<noteq> []" "e \<noteq> ''.''" "e \<noteq> ''..''" "CHR ''/'' \<notin> set e"
    by (simp_all add: valid_name_def)
  from assms(1) have hd: "hd (src @ ''/'' @ e) = hd src" by simp
  have "split_path (src @ ''/'' @ e) = split_path src @ [e]"
    using split_path_append [of src e] e(4) by (simp add: split_path_no_sep)
  then have "clean_elems (src @ ''/'' @ e) = clean_step (hd src = CHR ''/'') (clean_elems src) e"
    unfolding clean_elems_def hd by simp
  also have "\<dots> = clean_elems src @ [e]" using e by (simp add: clean_step_def)
  finally have "clean_elems (src @ ''/'' @ e) = clean_elems src @ [e]" .
  moreover have "Join src e = Clean (src @ ''/'' @ e)" using assms(1) by (simp add: Join_def)
  ultimately show ?thesis using Clean_render [of "src @ ''/'' @ e"] hd by simp
qed

lemma join_sep_snoc:
  "join_sep (out @ [e]) = (if out = [] then e else join_sep out @ ''/'' @ e)"
  by (induction out rule: join_sep.induct) auto

lemma render_snoc:
  "render rooted (out @ [e]) =
     (if out = [] then (if rooted then ''/'' else []) @ e else render rooted out @ ''/'' @ e)"
  by (simp add: render_def join_sep_snoc)

lemma render_single:
  "render rooted [e] = (if rooted then ''/'' else []) @ e"
  by (simp add: render_def)

lemma dropWhile_sep_rev_name:
  assumes "valid_name e"
  shows "dropWhile (\<lambda>c. c = CHR ''/'') (rev e @ xs) = rev e @ xs"
proof -
  from assms obtain y ys where "rev e = y # ys" "y \<noteq> CHR ''/''"
    by (cases e rule: rev_cases) (auto simp: valid_name_def)
  then show ?thesis by simp
qed

lemma dropWhile_name_sep:
  assumes "valid_name e"
  shows "dropWhile (\<lambda>c. c \<noteq> CHR ''/'') (rev e @ CHR ''/'' # xs) = CHR ''/'' # xs"
    and "dropWhile (\<lambda>c. c \<noteq> CHR ''/'') (rev e) = []"
    and "takeWhile (\<lambda>c. c \<noteq> CHR ''/'') (rev e @ CHR ''/'' # xs) = rev e"
    and "takeWhile (\<lambda>c. c \<noteq> CHR ''/'') (rev e) = rev e"
proof -
  from assms have a: "\<forall>c \<in> set (rev e). c \<noteq> CHR ''/''" by (auto simp: valid_name_def)
  then show "dropWhile (\<lambda>c. c \<noteq> CHR ''/'') (rev e @ CHR ''/'' # xs) = CHR ''/'' # xs"
    by (simp add: dropWhile_append3 dropWhile_append2)
  from a show "dropWhile (\<lambda>c. c \<noteq> CHR ''/'') (rev e) = []" by simp
  from a show "takeWhile (\<lambda>c. c \<noteq> CHR ''/'') (rev e @ CHR ''/'' # xs) = rev e"
    by (simp add: takeWhile_tail)
  from a show "takeWhile (\<lambda>c. c \<noteq> CHR ''/'') (rev e) = rev e" by simp
qed

lemma Base_after_sep:
  assumes "valid_name e"
  shows "Base (xs @ ''/'' @ e) = e" and "Base e = e"
proof -
  from assms have ne: "e \<noteq> []" by (simp add: valid_name_def)
  note d1 = dropWhile_sep_rev_name [OF assms, of "CHR ''/'' # rev xs"]
  note t1 = dropWhile_name_sep(3) [OF assms, of "rev xs"]
  note d2 = dropWhile_sep_rev_name [OF assms, of "[]", simplified]
  note t2 = dropWhile_name_sep(4) [OF assms]
  show "Base (xs @ ''/'' @ e) = e"
    using ne by (simp add: Base_def Let_def d1 t1)
  show "Base e = e"
    using ne by (simp add: Base_def Let_def d2 t2)
qed

lemma Base_render:
  assumes "valid_name e"
  shows "Base (render rooted (out @ [e])) = e"
proof (cases "out = []")
  case True
  show ?thesis
  proof (cases rooted)
    case True
    with \<open>out = []\<close> Base_after_sep(1) [OF assms, of "[]"] show ?thesis
      by (simp add: render_single)
  next
    case False
    with \<open>out = []\<close> Base_after_sep(2) [OF assms] show ?thesis by (simp add: render_single)
  qed
next
  case False
  with Base_after_sep(1) [OF assms, of "render rooted out"] show ?thesis
    by (simp add: render_snoc)
qed

lemma mkdirall_parent_render:
  assumes "normal rooted out" "valid_name e"
  shows "mkdirall_parent (render rooted (out @ [e])) =
           (if out = [] then None else Some (render rooted out))"
proof (cases "out = []")
  case True
  show ?thesis
  proof (cases rooted)
    case True
    note d = dropWhile_sep_rev_name [OF assms(2), of "''/''"]
    note j = dropWhile_name_sep(1) [OF assms(2), of "[]"]
    from True \<open>out = []\<close> show ?thesis
      by (simp add: render_single mkdirall_parent_def Let_def d j)
  next
    case False
    note d = dropWhile_sep_rev_name [OF assms(2), of "[]", simplified]
    note j = dropWhile_name_sep(2) [OF assms(2)]
    from False \<open>out = []\<close> show ?thesis
      by (simp add: render_single mkdirall_parent_def Let_def d j)
  qed
next
  case False
  from render_facts(1) [OF assms(1) False] have ne: "render rooted out \<noteq> []" .
  note d = dropWhile_sep_rev_name [OF assms(2), of "CHR ''/'' # rev (render rooted out)"]
  note j = dropWhile_name_sep(1) [OF assms(2), of "rev (render rooted out)"]
  from False ne show ?thesis
    by (simp add: render_snoc mkdirall_parent_def Let_def d j)
qed

lemma split_filter_render:
  assumes "normal rooted out" "out \<noteq> []"
  shows "filter (\<lambda>c. c \<noteq> []) (split_path (render rooted out)) = out"
proof -
  from assms(1) have el: "\<forall>c \<in> set out. c \<noteq> [] \<and> CHR ''/'' \<notin> set c"
    unfolding normal_def by auto
  then have el1: "\<forall>c \<in> set out. CHR ''/'' \<notin> set c" and el2: "\<forall>c \<in> set out. c \<noteq> []" by auto
  show ?thesis
  proof (cases rooted)
    case True
    have "split_path (render rooted out) = [] # out"
      using split_path_append [of "[]" "join_sep out"] split_path_join_sep [OF assms(2) el1] True
      by (simp add: render_def)
    with el2 show ?thesis by (simp add: filter_id_conv)
  next
    case False
    with assms(2) have "split_path (render rooted out) = out"
      using split_path_join_sep [OF assms(2) el1] by (simp add: render_def)
    with el2 show ?thesis by (simp add: filter_id_conv)
  qed
qed

subsection \<open>Lexical cleaning agrees with resolution\<close>

lemma walk_append:
  "walk fs cur (xs @ ys) = (case walk fs cur xs of Inl e \<Rightarrow> Inl e | Inr q \<Rightarrow> walk fs q ys)"
  by (induction xs arbitrary: cur) (auto split: option.splits node.splits)

lemma walk_snoc_name:
  assumes "walk fs cur xs = Inr q" "lookup fs q = Some (Dir m)" "valid_name e"
  shows "walk fs cur (xs @ [e]) = Inr (q @ [e])"
  using assms by (simp add: walk_append valid_name_def)

lemma foldl_clean_filter:
  "foldl (clean_step rooted) acc (filter (\<lambda>c. c \<noteq> []) cs) = foldl (clean_step rooted) acc cs"
  by (induction cs arbitrary: acc) (simp_all add: clean_step_def)

lemma walk_clean:
  assumes "walk fs start acc = Inr cur" "walk fs cur comps = Inr q"
    and "normal rooted acc" "rooted \<longrightarrow> start = []"
    and "\<forall>c \<in> set comps. c \<noteq> [] \<and> CHR ''/'' \<notin> set c"
  shows "walk fs start (foldl (clean_step rooted) acc comps) = Inr q"
  using assms
proof (induction comps arbitrary: acc cur)
  case Nil
  then show ?case by simp
next
  case (Cons c comps)
  from Cons.prems(2) obtain m where dir: "lookup fs cur = Some (Dir m)"
    by (auto split: option.splits node.splits)
  let ?next = "if c = ''.'' then cur else if c = ''..'' then butlast cur else cur @ [c]"
  from Cons.prems(2) dir have rest: "walk fs ?next comps = Inr q" by simp
  from Cons.prems(5) have c: "c \<noteq> []" "CHR ''/'' \<notin> set c" by simp_all
  have n': "normal rooted (clean_step rooted acc c)"
    using Cons.prems(3) c(2) by (rule normal_clean_step)
  have "walk fs start (clean_step rooted acc c) = Inr ?next"
  proof -
    consider (dot) "c = ''.''"
      | (pop) "c = ''..''" "acc \<noteq> []" "last acc \<noteq> ''..''"
      | (root) "c = ''..''" "acc = [] \<or> last acc = ''..''" "rooted"
      | (push) "c = ''..''" "acc = [] \<or> last acc = ''..''" "\<not> rooted"
      | (name) "c \<noteq> ''.''" "c \<noteq> ''..''"
      by blast
    then show ?thesis
    proof cases
      case dot
      with Cons.prems(1) show ?thesis by (simp add: clean_step_def)
    next
      case pop
      from pop(2) obtain ys y where acc: "acc = ys @ [y]" by (cases acc rule: rev_cases) auto
      with pop(3) have y: "y \<noteq> ''..''" by simp
      from acc Cons.prems(3) have y2: "y \<noteq> []" "y \<noteq> ''.''" unfolding normal_def by auto
      from Cons.prems(1) acc obtain c0 where c0: "walk fs start ys = Inr c0" "walk fs c0 [y] = Inr cur"
        by (auto simp: walk_append split: sum.splits)
      from c0(2) y y2 have "cur = c0 @ [y]" by (auto split: option.splits node.splits)
      with c0(1) acc pop y show ?thesis by (simp add: clean_step_def)
    next
      case root
      with Cons.prems(3) have "acc = []"
        unfolding normal_def by (cases acc rule: rev_cases) auto
      with root Cons.prems(1,4) show ?thesis by (simp add: clean_step_def)
    next
      case push
      from push have "clean_step rooted acc c = acc @ [''..'']" by (auto simp: clean_step_def)
      with Cons.prems(1) dir push(1) show ?thesis by (simp add: walk_append)
    next
      case name
      with c have "clean_step rooted acc c = acc @ [c]" by (simp add: clean_step_def)
      with Cons.prems(1) dir name show ?thesis by (simp add: walk_append)
    qed
  qed
  from Cons.IH [OF this rest n' Cons.prems(4)] Cons.prems(5) show ?case by simp
qed

lemma resolve_walk_clean:
  assumes "resolve fs p = Inr q"
  shows "walk fs (start_of fs p) (clean_elems p) = Inr q" and "p \<noteq> []"
proof -
  from assms show ne: "p \<noteq> []" by (auto simp: resolve_def split: if_splits)
  with assms have w: "walk fs (start_of fs p) (filter (\<lambda>c. c \<noteq> []) (split_path p)) = Inr q"
    by (simp add: resolve_def start_of_def)
  have "walk fs (start_of fs p)
          (foldl (clean_step (hd p = CHR ''/'')) [] (filter (\<lambda>c. c \<noteq> []) (split_path p))) = Inr q"
    by (rule walk_clean [OF _ w]) (auto simp: start_of_def dest: split_path_elems)
  then show "walk fs (start_of fs p) (clean_elems p) = Inr q"
    by (simp add: clean_elems_def foldl_clean_filter)
qed

lemma resolve_render:
  assumes "normal rooted out" "out \<noteq> []"
  shows "resolve fs (render rooted out) = walk fs (if rooted then [] else cwd fs) out"
  using render_facts(1,2) [OF assms] split_filter_render [OF assms]
  by (simp add: resolve_def)

lemma resolve_Join:
  assumes "resolve fs p = Inr q" "lookup fs q = Some (Dir m)" "valid_name e"
  shows "resolve fs (Join p e) = Inr (q @ [e])"
proof -
  note w = resolve_walk_clean [OF assms(1)]
  have n: "normal (hd p = CHR ''/'') (clean_elems p @ [e])"
    using normal_clean_elems assms(3) by (rule valid_name_normal_snoc)
  have "resolve fs (Join p e) = walk fs (start_of fs p) (clean_elems p @ [e])"
    using resolve_render [OF n] Join_valid_name [OF w(2) assms(3)] by (simp add: start_of_def)
  with walk_snoc_name [OF w(1) assms(2,3)] show ?thesis by simp
qed

lemma Base_Join:
  assumes "p \<noteq> []" "valid_name e"
  shows "Base (Join p e) = e"
  using Join_valid_name [OF assms] Base_render [OF assms(2)] by simp

subsection \<open>Single steps of a copy into a fresh target\<close>

lemma not_trailing_sep_Join:
  assumes "p \<noteq> []" "valid_name e"
  shows "\<not> trailing_sep (Join p e)"
proof -
  from assms(2) have e: "e \<noteq> []" "CHR ''/'' \<notin> set e" by (simp_all add: valid_name_def)
  then have l: "last e \<noteq> CHR ''/''" using last_in_set by fastforce
  have "last (Join p e) = last e"
    using e(1) by (simp add: Join_valid_name [OF assms] render_snoc render_single)
  with l show ?thesis by (simp add: trailing_sep_def)
qed

lemma resolve_nonempty: "resolve fs p = Inr q \<Longrightarrow> p \<noteq> []"
  by (auto simp: resolve_def split: if_splits)

lemma check_dirs_ok:
  assumes "resolve fs src = Inr s" "lookup fs s = Some (Dir ms)"
    and "resolve fs dst = Inr d" "lookup fs d = Some (Dir md)"
  shows "check_dirs fs dst [src, dst] = None"
proof -
  from assms(1,2) have "Stat fs src = Inr (Dir ms)" unfolding Stat_Inr by simp
  moreover from assms(3,4) have "Stat fs dst = Inr (Dir md)" unfolding Stat_Inr by simp
  ultimately show ?thesis by simp
qed

lemma MkdirAll_existing:
  assumes "resolve fs p = Inr q" "lookup fs q = Some (Dir m)"
  shows "MkdirAll fs p perm = (None, fs)"
proof -
  from assms have "Stat fs p = Inr (Dir m)" unfolding Stat_Inr by simp
  then show ?thesis by (simp add: MkdirAll.simps [of fs p])
qed

lemma MkdirAll_fresh:
  assumes "resolve fs dst = Inr d" "lookup fs d = Some (Dir md)"
    and "valid_name e" "lookup fs (d @ [e]) = None"
  shows "MkdirAll fs (Join dst e) perm = (None, fs\<lparr>nodes := (d @ [e], Dir perm) # nodes fs\<rparr>)"
proof -
  note w = resolve_walk_clean [OF assms(1)]
  let ?r = "hd dst = CHR ''/''"
  let ?out = "clean_elems dst"
  have j: "Join dst e = render ?r (?out @ [e])" by (rule Join_valid_name [OF w(2) assms(3)])
  have r: "resolve fs (Join dst e) = Inr (d @ [e])" by (rule resolve_Join [OF assms(1,2,3)])
  with assms(4) have st: "Stat fs (Join dst e) = Inl ENOENT" by (simp add: Stat_def)
  have mp: "mkdirall_parent (Join dst e) = (if ?out = [] then None else Some (render ?r ?out))"
    unfolding j by (rule mkdirall_parent_render [OF normal_clean_elems assms(3)])
  have par: "(case mkdirall_parent (Join dst e) of None \<Rightarrow> (None, fs)
               | Some parent \<Rightarrow> MkdirAll fs parent perm) = (None, fs)"
  proof (cases "?out = []")
    case True
    with mp show ?thesis by simp
  next
    case False
    have "resolve fs (render ?r ?out) = Inr d"
      using resolve_render [OF normal_clean_elems False] w(1) by (simp add: start_of_def)
    from MkdirAll_existing [OF this assms(2)] False mp show ?thesis by simp
  qed
  have mk: "Mkdir fs (Join dst e) perm = Inr (fs\<lparr>nodes := (d @ [e], Dir perm) # nodes fs\<rparr>)"
    using r assms(2,4) by (simp add: Mkdir_def)
  show ?thesis
    using st par mk by (simp add: MkdirAll.simps [of fs "Join dst e"])
qed

lemma copyFile_plain:
  assumes "resolve fs src = Inr s" "lookup fs s = Some (Dir ms)"
    and "valid_name a" "lookup fs (s @ [a]) = Some (File m c)"
    and "resolve fs tgt = Inr t" "lookup fs t = Some (Dir mt)"
    and "lookup fs (t @ [a]) = None"
  shows "copyFile E (Join src a) (Join tgt a) [] fs
           = (None, fs\<lparr>nodes := (t @ [a], File perm_0660 c) # nodes fs\<rparr>)"
proof -
  have rs: "resolve fs (Join src a) = Inr (s @ [a])" by (rule resolve_Join [OF assms(1,2,3)])
  have rt: "resolve fs (Join tgt a) = Inr (t @ [a])" by (rule resolve_Join [OF assms(5,6,3)])
  have ns: "\<not> trailing_sep (Join src a)"
    by (rule not_trailing_sep_Join [OF resolve_nonempty [OF assms(1)] assms(3)])
  have nt: "\<not> trailing_sep (Join tgt a)"
    by (rule not_trailing_sep_Join [OF resolve_nonempty [OF assms(5)] assms(3)])
  from rs assms(4) ns have o: "Open fs (Join src a) = Inr (File m c)"
    by (simp add: Open_def Stat_def)
  let ?fs1 = "fs\<lparr>nodes := (t @ [a], File perm_0660 []) # nodes fs\<rparr>"
  from rt nt assms(6,7) have c: "OpenFile_excl fs (Join tgt a) perm_0660 = Inr (t @ [a], ?fs1)"
    by (simp add: OpenFile_excl_def)
  have w: "Write ?fs1 (t @ [a]) c = fs\<lparr>nodes := (t @ [a], File perm_0660 c) # nodes fs\<rparr>"
    by (simp add: Write_def lookup_def)
  from o c w show ?thesis by (simp add: copyFile_def)
qed

lemma child_names_sorted_distinct: "sorted (child_names fs q) \<and> distinct (child_names fs q)"
  by (simp add: child_names_def)

lemma child_names_cong:
  assumes "\<And>a. (lookup fs' (q @ [a]) = None) = (lookup fs (q @ [a]) = None)"
  shows "child_names fs' q = child_names fs q"
proof -
  have "set (child_names fs' q) = set (child_names fs q)"
    using assms by (auto simp: child_names_lookup)
  then show ?thesis
    using child_names_sorted_distinct [of fs' q] child_names_sorted_distinct [of fs q]
    by (intro sorted_distinct_set_unique) simp_all
qed

lemma entry_of_child:
  "lookup fs (s @ [a]) = Some nd \<Longrightarrow> entry_of fs s a = (a, IsDir nd)"
  by (simp add: entry_of_def)

lemma find_append:
  "find P (xs @ ys) = (case find P xs of None \<Rightarrow> find P ys | Some x \<Rightarrow> Some x)"
  by (induction xs) auto

lemma state_afterD:
  assumes "state_after fs rename s t es fs'"
  shows "cwd fs' = cwd fs"
    and "prefix t p \<Longrightarrow> lookup fs' p = copiedE fs rename s es (drop (length t) p)"
    and "\<not> prefix t p \<Longrightarrow> lookup fs' p = lookup fs p"
  using assms by (simp_all add: state_after_def)

lemma prefix_snoc_drop:
  "prefix (t @ [x]) p \<longleftrightarrow> prefix t p \<and> prefix [x] (drop (length t) p)"
  by (auto simp: prefix_def)

lemma drop_snoc_len: "drop (length (t @ [x])) p = tl (drop (length t) p)"
  by (simp add: drop_Suc tl_drop)

lemma eq_snoc_drop: "p = t @ [a] \<longleftrightarrow> prefix t p \<and> drop (length t) p = [a]"
  by (auto simp: prefix_def)

lemma under_src_not_tgt:
  assumes "lookup fs s = Some nd" "absent_below fs t" "\<not> prefix s t" "prefix s p"
  shows "\<not> prefix t p"
proof
  assume "prefix t p"
  with assms(4) have "prefix s t \<or> prefix t s" by (rule prefix_same_cases)
  with assms(3) have "prefix t s" by simp
  with assms(2) have "lookup fs s = None" by (simp add: absent_below_def)
  with assms(1) show False by simp
qed

lemma img_cong:
  "lookup fs' (s @ [a]) = lookup fs (s @ [a]) \<Longrightarrow> img fs' rename s a = img fs rename s a"
  by (simp add: img_def)

lemma copiedE_cong:
  assumes "\<And>p. prefix s p \<Longrightarrow> lookup fs' p = lookup fs p"
  shows "copiedE fs' rename s es rel = copiedE fs rename s es rel"
  using assms
proof (induction rel arbitrary: s es)
  case Nil
  show ?case by simp
next
  case (Cons x xs)
  have i: "img fs' rename s a = img fs rename s a" for a
    by (rule img_cong) (simp add: Cons.prems)
  have l: "lookup fs' (s @ [a]) = lookup fs (s @ [a])" for a by (simp add: Cons.prems)
  have c: "child_names fs' (s @ [a]) = child_names fs (s @ [a])" for a
    by (rule child_names_cong) (simp add: Cons.prems)
  have r: "copiedE fs' rename (s @ [a]) es' xs = copiedE fs rename (s @ [a]) es' xs" for a es'
    by (rule Cons.IH) (simp add: Cons.prems prefix_order.trans [of s "s @ [a]"])
  show ?case by (simp add: i l c r cong: option.case_cong node.case_cong)
qed

lemma copiedE_snoc_file:
  assumes "\<forall>b \<in> set es. img fs rename s b \<noteq> img fs rename s a"
    and "lookup fs (s @ [a]) = Some (File m c)"
  shows "copiedE fs rename s (es @ [a]) rel =
           (if rel = [a] then Some (File perm_0660 c) else copiedE fs rename s es rel)"
proof (cases rel)
  case Nil
  then show ?thesis by simp
next
  case (Cons x xs)
  from assms(2) have ia: "img fs rename s a = a" by (simp add: img_def)
  show ?thesis
  proof (cases "find (\<lambda>b. img fs rename s b = x) es")
    case (Some y)
    then have "y \<in> set es" "img fs rename s y = x" by (auto simp: find_Some_iff)
    with assms(1) ia have "x \<noteq> a" by auto
    with Cons Some show ?thesis by (simp add: find_append)
  next
    case None
    with Cons assms(2) ia show ?thesis by (auto simp: find_append)
  qed
qed

lemma copiedE_snoc_dir:
  assumes "\<forall>b \<in> set es. img fs rename s b \<noteq> img fs rename s a"
    and "lookup fs (s @ [a]) = Some (Dir m)"
  shows "copiedE fs rename s (es @ [a]) rel =
           (if prefix [rename a] rel then copied fs rename (s @ [a]) (tl rel)
            else copiedE fs rename s es rel)"
proof (cases rel)
  case Nil
  then show ?thesis by simp
next
  case (Cons x xs)
  from assms(2) have ia: "img fs rename s a = rename a" by (simp add: img_def)
  show ?thesis
  proof (cases "find (\<lambda>b. img fs rename s b = x) es")
    case (Some y)
    then have "y \<in> set es" "img fs rename s y = x" by (auto simp: find_Some_iff)
    with assms(1) ia have "x \<noteq> rename a" by auto
    with Cons Some show ?thesis by (simp add: find_append)
  next
    case None
    with Cons assms(2) ia show ?thesis by (auto simp: find_append copied_def)
  qed
qed

lemma state_after_extends:
  assumes "state_after fs rename s t es fs'" "absent_below fs t"
  shows "extends fs fs'"
proof -
  have "lookup fs' q = Some n" if "lookup fs q = Some n" for q n
  proof -
    from that assms(2) have "\<not> prefix t q" by (auto simp: absent_below_def)
    with state_afterD(3) [OF assms(1)] that show ?thesis by simp
  qed
  with state_afterD(1) [OF assms(1)] show ?thesis by (simp add: extends_def)
qed

lemma copyEntries_total:
  assumes ok: "call_ok E k rename"
    and src: "resolve fs src = Inr s" "lookup fs s = Some (Dir ms)"
    and tgt: "resolve fs tgt = Inr t"
    and fresh: "absent_below fs t" "\<not> prefix s t"
    and tree: "src_tree_ok fs rename s" "shallow fs s (Suc k)"
    and inv: "state_after fs rename s t seen fsk"
    and names: "seen @ rest = child_names fs s"
  shows "\<exists>fs'. copyEntries E k src tgt rename [] (map (entry_of fs s) rest) fsk = Some (None, fs') \<and>
               state_after fs rename s t (seen @ rest) fs'"
  using inv names
proof (induction rest arbitrary: seen fsk)
  case Nil
  then show ?case by simp
next
  case (Cons a rest)
  note inv = Cons.prems(1)
  from Cons.prems(2) have a_in: "a \<in> set (child_names fs s)"
    by (metis in_set_conv_decomp)
  from Cons.prems(2) child_names_sorted_distinct [of fs s] have dist: "distinct (seen @ a # rest)"
    by simp
  from a_in obtain na where na: "lookup fs (s @ [a]) = Some na"
    by (auto simp: child_names_lookup)
  from tree(1) na have va: "valid_name a" and vi: "valid_name (img fs rename s a)"
    unfolding src_tree_ok_def by blast+
  have other: "\<forall>b \<in> set seen. img fs rename s b \<noteq> img fs rename s a"
  proof
    fix b assume b: "b \<in> set seen"
    with Cons.prems(2) have "b \<in> set (child_names fs s)"
      by (metis Un_iff set_append)
    then obtain nb where nb: "lookup fs (s @ [b]) = Some nb" by (auto simp: child_names_lookup)
    from dist b have "a \<noteq> b" by auto
    with tree(1) na nb show "img fs rename s b \<noteq> img fs rename s a"
      unfolding src_tree_ok_def by (metis prefix_order.order_refl)
  qed
  have ext: "extends fs fsk" by (rule state_after_extends [OF inv fresh(1)])
  have rs: "resolve fsk src = Inr s" by (rule resolve_extends [OF ext src(1)])
  have rt: "resolve fsk tgt = Inr t" by (rule resolve_extends [OF ext tgt])
  have ls: "lookup fsk s = Some (Dir ms)" by (rule extends_lookup [OF ext src(2)])
  have lt: "lookup fsk t = Some (Dir perm_0770)"
    using state_afterD(2) [OF inv, of t] by simp
  have under: "lookup fsk p = lookup fs p" if "prefix s p" for p
    using state_afterD(3) [OF inv under_src_not_tgt [OF src(2) fresh that]] .
  have la: "lookup fsk (s @ [a]) = Some na" using under [of "s @ [a]"] na by simp
  have ea: "entry_of fs s a = (a, IsDir na)" by (rule entry_of_child [OF na])
  show ?case
  proof (cases na)
    case (File m c)
    with vi have ia: "img fs rename s a = a" using na by (simp add: img_def)
    have "lookup fsk (t @ [a]) = copiedE fs rename s seen [a]"
      using state_afterD(2) [OF inv, of "t @ [a]"] by simp
    also have "\<dots> = None"
    proof -
      from other ia have "find (\<lambda>b. img fs rename s b = a) seen = None"
        by (auto simp: find_None_iff)
      then show ?thesis by simp
    qed
    finally have free: "lookup fsk (t @ [a]) = None" .
    let ?fs1 = "fsk\<lparr>nodes := (t @ [a], File perm_0660 c) # nodes fsk\<rparr>"
    have cf: "copyFile E (Join src a) (Join tgt a) [] fsk = (None, ?fs1)"
      using rs ls va la [unfolded File] rt lt free by (rule copyFile_plain)
    have l1: "lookup ?fs1 p = (if p = t @ [a] then Some (File perm_0660 c) else lookup fsk p)" for p
      by (simp add: lookup_cons)
    have inv1: "state_after fs rename s t (seen @ [a]) ?fs1"
      unfolding state_after_def
    proof (intro conjI allI)
      show "cwd ?fs1 = cwd fs" using state_afterD(1) [OF inv] by simp
    next
      fix p
      show "lookup ?fs1 p =
              (if prefix t p then copiedE fs rename s (seen @ [a]) (drop (length t) p)
               else lookup fs p)"
      proof (cases "prefix t p")
        case True
        with state_afterD(2) [OF inv True] show ?thesis
          by (simp add: l1 copiedE_snoc_file [OF other na [unfolded File]] eq_snoc_drop)
      next
        case False
        then have "p \<noteq> t @ [a]" by auto
        with False state_afterD(3) [OF inv False] show ?thesis by (simp add: l1)
      qed
    qed
    from Cons.IH [OF inv1] Cons.prems(2) obtain fs' where
      "copyEntries E k src tgt rename [] (map (entry_of fs s) rest) ?fs1 = Some (None, fs')"
      "state_after fs rename s t ((seen @ [a]) @ rest) fs'"
      by auto
    with cf ea File show ?thesis by (simp add: fileName_def)
  next
    case (Dir m)
    with vi have ia: "img fs rename s a = rename a" and vr: "valid_name (rename a)"
      using na by (simp_all add: img_def)
    have ne: "src \<noteq> []" by (rule resolve_nonempty [OF src(1)])
    have base: "Base (Join src a) = a" by (rule Base_Join [OF ne va])
    have rsa: "resolve fsk (Join src a) = Inr (s @ [a])" by (rule resolve_Join [OF rs ls va])
    have none_done: "find (\<lambda>b. img fs rename s b = rename a) seen = None"
      using other ia by (auto simp: find_None_iff)
    have ab: "absent_below fsk (t @ [rename a])"
      unfolding absent_below_def
    proof (intro allI impI)
      fix p assume p: "prefix (t @ [rename a]) p"
      then have pt: "prefix t p" and px: "prefix [rename a] (drop (length t) p)"
        by (simp_all add: prefix_snoc_drop)
      from px obtain xs where "drop (length t) p = rename a # xs" by (auto simp: prefix_def)
      with state_afterD(2) [OF inv pt] none_done show "lookup fsk p = None" by simp
    qed
    have np: "\<not> prefix (s @ [a]) (t @ [rename a])"
    proof
      assume h: "prefix (s @ [a]) (t @ [rename a])"
      then have "prefix s (t @ [rename a])" by (metis append_prefixD)
      then have "prefix s t \<or> s = t @ [rename a]" by (auto simp: prefix_snoc)
      with fresh(2) have "s = t @ [rename a]" by simp
      with h show False by (simp add: prefix_def)
    qed
    have tree1: "src_tree_ok fsk rename (s @ [a])"
      unfolding src_tree_ok_def
    proof (intro allI impI)
      fix q b nb
      assume q: "prefix (s @ [a]) q" and b: "lookup fsk (q @ [b]) = Some nb"
      from q have qs: "prefix s q" by (metis append_prefixD)
      then have u: "lookup fsk (q @ [x]) = lookup fs (q @ [x])" for x
        by (intro under) (simp add: prefix_order.trans [of s q])
      then have i: "img fsk rename q x = img fs rename q x" for x by (simp add: img_def)
      from tree(1) qs b [unfolded u]
      show "valid_name b \<and> valid_name (img fsk rename q b) \<and>
            (\<forall>ba nba. lookup fsk (q @ [ba]) = Some nba \<longrightarrow>
               img fsk rename q b = img fsk rename q ba \<longrightarrow> b = ba)"
        unfolding src_tree_ok_def i u by blast
    qed
    have sh1: "shallow fsk (s @ [a]) k"
      unfolding shallow_def
    proof (intro allI impI)
      fix p nd
      assume p: "prefix (s @ [a]) p" and l: "lookup fsk p = Some nd"
      from p have ps: "prefix s p" by (metis append_prefixD)
      with l under have "lookup fs p = Some nd" by simp
      with tree(2) ps have "length p < length s + Suc k" unfolding shallow_def by blast
      then show "length p < length (s @ [a]) + k" by simp
    qed
    from ok [unfolded call_ok_def, rule_format, OF rsa la [unfolded Dir] rt lt, unfolded base,
        OF vr ab np tree1 sh1]
    obtain fs1 where call: "CopyDir2 E k (Join src a) tgt rename [] fsk = Some (None, fs1)"
      and st1: "state_after fsk rename (s @ [a]) (t @ [rename a])
                  (child_names fsk (s @ [a])) fs1"
      by blast
    have sub_eq: "copiedE fsk rename (s @ [a]) (child_names fsk (s @ [a])) rel
                    = copied fs rename (s @ [a]) rel" for rel
    proof -
      have u: "lookup fsk p = lookup fs p" if "prefix (s @ [a]) p" for p
        by (rule under) (metis append_prefixD that)
      have "child_names fsk (s @ [a]) = child_names fs (s @ [a])"
        by (rule child_names_cong) (simp add: u)
      with copiedE_cong [of "s @ [a]" fsk fs rename] u show ?thesis by (simp add: copied_def)
    qed
    have inv1: "state_after fs rename s t (seen @ [a]) fs1"
      unfolding state_after_def
    proof (intro conjI allI)
      show "cwd fs1 = cwd fs" using state_afterD(1) [OF st1] state_afterD(1) [OF inv] by simp
    next
      fix p
      show "lookup fs1 p =
              (if prefix t p then copiedE fs rename s (seen @ [a]) (drop (length t) p)
               else lookup fs p)"
      proof (cases "prefix (t @ [rename a]) p")
        case True
        then have pt: "prefix t p" and px: "prefix [rename a] (drop (length t) p)"
          by (simp_all add: prefix_snoc_drop)
        from state_afterD(2) [OF st1 True] pt px show ?thesis
          by (simp add: sub_eq drop_snoc_len copiedE_snoc_dir [OF other na [unfolded Dir]]
                del: length_append)
      next
        case False
        note nf = False
        show ?thesis
        proof (cases "prefix t p")
          case True
          with nf have "\<not> prefix [rename a] (drop (length t) p)" by (simp add: prefix_snoc_drop)
          with state_afterD(3) [OF st1 nf] state_afterD(2) [OF inv True] True show ?thesis
            by (simp add: copiedE_snoc_dir [OF other na [unfolded Dir]])
        next
          case False
          with state_afterD(3) [OF st1 nf] state_afterD(3) [OF inv False] show ?thesis by simp
        qed
      qed
    qed
    from Cons.IH [OF inv1] Cons.prems(2) obtain fs' where
      "copyEntries E k src tgt rename [] (map (entry_of fs s) rest) fs1 = Some (None, fs')"
      "state_after fs rename s t ((seen @ [a]) @ rest) fs'"
      by auto
    with call ea Dir show ?thesis by simp
  qed
qed

lemma lookup_in_nodes: "lookup fs p = Some nd \<Longrightarrow> p \<noteq> [] \<Longrightarrow> (p, nd) \<in> set (nodes fs)"
  by (auto simp: lookup_def dest: map_of_SomeD)

lemma fresh_target_absent:
  assumes "fresh_target fs t" "t \<noteq> []"
  shows "absent_below fs t"
  unfolding absent_below_def
proof (intro allI impI)
  fix p assume p: "prefix t p"
  with assms(2) have ne: "p \<noteq> []" by auto
  show "lookup fs p = None"
  proof (cases "lookup fs p")
    case (Some nd)
    from lookup_in_nodes [OF Some ne] assms(1) p show ?thesis
      by (auto simp: fresh_target_def list_all_iff)
  qed simp
qed

lemma tree_names_ok_src_tree_ok:
  assumes "tree_names_ok fs rename s"
  shows "src_tree_ok fs rename s"
  unfolding src_tree_ok_def
proof (intro allI impI)
  fix q a na
  assume q: "prefix s q" and a: "lookup fs (q @ [a]) = Some na"
  from lookup_in_nodes [OF a] have ia: "(q @ [a], na) \<in> set (nodes fs)" by simp
  with assms q have va: "valid_name a" "valid_name (img fs rename q a)"
    and rest: "\<forall>pn' \<in> set (nodes fs). fst pn' = [] \<or> butlast (fst pn') \<noteq> q \<or>
                img fs rename (butlast (fst pn')) (last (fst pn')) \<noteq> img fs rename q a \<or>
                fst pn' = q @ [a]"
    unfolding tree_names_ok_def list_all_iff by fastforce+
  have "a = b" if b: "lookup fs (q @ [b]) = Some nb" and e: "img fs rename q a = img fs rename q b"
    for b nb
  proof -
    from lookup_in_nodes [OF b] have "(q @ [b], nb) \<in> set (nodes fs)" by simp
    with rest e have "q @ [b] = q @ [a]" by fastforce
    then show ?thesis by simp
  qed
  with va show "valid_name a \<and> valid_name (img fs rename q a) \<and>
        (\<forall>b nb. lookup fs (q @ [b]) = Some nb \<longrightarrow> img fs rename q a = img fs rename q b \<longrightarrow> a = b)"
    by blast
qed

lemma foldr_max_bound:
  "pn \<in> set xs \<Longrightarrow> length (fst pn) \<le> foldr (\<lambda>pn m. max (length (fst pn)) m) xs 0"
  by (induction xs) auto

lemma depth_bound_shallow:
  assumes "depth_bound fs \<le> n"
  shows "shallow fs s n"
  unfolding shallow_def
proof (intro allI impI)
  fix p nd
  assume l: "lookup fs p = Some nd"
  show "length p < length s + n"
  proof (cases "p = []")
    case True
    with assms show ?thesis by (simp add: depth_bound_def)
  next
    case False
    from foldr_max_bound [OF lookup_in_nodes [OF l False]] assms show ?thesis
      by (simp add: depth_bound_def)
  qed
qed

lemma call_ok_all: "call_ok E n rename"
proof (induction n)
  case 0
  show ?case
    unfolding call_ok_def shallow_def by (metis add.right_neutral less_irrefl prefix_order.order_refl)
next
  case (Suc k)
  show ?case
    unfolding call_ok_def
  proof (intro allI impI)
    fix src dst fs s d ms md
    assume src: "resolve fs src = Inr s" "lookup fs s = Some (Dir ms)"
      and dst: "resolve fs dst = Inr d" "lookup fs d = Some (Dir md)"
      and vn: "valid_name (rename (Base src))"
      and fresh: "absent_below fs (d @ [rename (Base src)])"
        "\<not> prefix s (d @ [rename (Base src)])"
      and tree: "src_tree_ok fs rename s" "shallow fs s (Suc k)"
    let ?name = "rename (Base src)"
    let ?t = "d @ [?name]"
    let ?tgt = "Join dst ?name"
    let ?fs1 = "fs\<lparr>nodes := (?t, Dir perm_0770) # nodes fs\<rparr>"
    have chk: "check_dirs fs dst [src, dst] = None" by (rule check_dirs_ok [OF src dst])
    from fresh(1) have free: "lookup fs ?t = None" by (simp add: absent_below_def)
    have mk: "MkdirAll fs ?tgt perm_0770 = (None, ?fs1)"
      by (rule MkdirAll_fresh [OF dst vn free])
    have l1: "lookup ?fs1 p = (if p = ?t then Some (Dir perm_0770) else lookup fs p)" for p
      by (simp add: lookup_cons)
    have inv: "state_after fs rename s ?t [] ?fs1"
      unfolding state_after_def
    proof (intro conjI allI)
      show "cwd ?fs1 = cwd fs" by simp
    next
      fix p
      show "lookup ?fs1 p =
              (if prefix ?t p then copiedE fs rename s [] (drop (length ?t) p) else lookup fs p)"
      proof (cases "prefix ?t p")
        case True
        show ?thesis
        proof (cases "p = ?t")
          case True
          then show ?thesis by (simp add: l1)
        next
          case False
          with True obtain x xs where "drop (length ?t) p = x # xs"
            by (cases "drop (length ?t) p") (auto simp: prefix_def)
          moreover from True fresh(1) have "lookup fs p = None" by (simp add: absent_below_def)
          ultimately show ?thesis using True False by (simp add: l1 del: length_append)
        qed
      next
        case False
        then have "p \<noteq> ?t" by auto
        with False show ?thesis by (simp add: l1)
      qed
    qed
    have ext: "extends fs ?fs1" by (rule state_after_extends [OF inv fresh(1)])
    have rt: "resolve fs ?tgt = Inr ?t" by (rule resolve_Join [OF dst vn])
    have under: "lookup ?fs1 p = lookup fs p" if "prefix s p" for p
      using state_afterD(3) [OF inv under_src_not_tgt [OF src(2) fresh that]] .
    have cn: "child_names ?fs1 s = child_names fs s"
      by (rule child_names_cong) (simp add: under)
    have en: "map (entry_of ?fs1 s) (child_names fs s) = map (entry_of fs s) (child_names fs s)"
      by (rule map_cong) (simp_all add: entry_of_def under)
    have rd: "ReadDir ?fs1 src = Inr (map (entry_of fs s) (child_names fs s))"
      using resolve_extends [OF ext src(1)] extends_lookup [OF ext src(2)] cn en
      unfolding ReadDir_Inr by auto
    from copyEntries_total [OF Suc src rt fresh tree inv, of "child_names fs s"]
    obtain fs' where loop:
      "copyEntries E k src ?tgt rename [] (map (entry_of fs s) (child_names fs s)) ?fs1
         = Some (None, fs')"
      and post: "state_after fs rename s ?t (child_names fs s) fs'"
      by auto
    from chk mk rd loop have "CopyDir2 E (Suc k) src dst rename [] fs = Some (None, fs')"
      by (simp add: Let_def del: check_dirs.simps)
    with post show "\<exists>fs'. CopyDir2 E (Suc k) src dst rename [] fs = Some (None, fs') \<and>
               state_after fs rename s ?t (child_names fs s) fs'"
      by blast
  qed
qed

section \<open>The claims\<close>




text \<open>
  Claim C2.  When a regular file already exists at the destination path of a file
  copy (and the source can be opened), \<open>copyFile\<close> fails with the error of the exclusive
  creation, \<open>EEXIST\<close>, and leaves the file system as it was; and whatever a call of
  \<open>CopyDir2\<close> returns, a file that existed before the call has its mode and content
  after it.
\<close>

theorem copy_collision:
  assumes "Open fs srcPath = Inr srcFile"
    and "Stat fs dstPath = Inr (File m c)"
  shows "copyFile E srcPath dstPath tmplData fs
           = (Some (CreatingDst (PathError ''open'' dstPath EEXIST)), fs) \<and>
         (\<forall>E' n src dst rename tmplData' r fs'.
            CopyDir2 E' n src dst rename tmplData' fs = Some (r, fs') \<longrightarrow>
            Stat fs' dstPath = Inr (File m c))"
proof (intro conjI allI impI)
  from assms(2) obtain q where q: "resolve fs dstPath = Inr q" "lookup fs q = Some (File m c)"
      "\<not> trailing_sep dstPath"
    unfolding Stat_Inr by auto
  then have "OpenFile_excl fs dstPath perm_0660 = Inl EEXIST"
    by (simp add: OpenFile_excl_def)
  with assms(1) show "copyFile E srcPath dstPath tmplData fs
           = (Some (CreatingDst (PathError ''open'' dstPath EEXIST)), fs)"
    by (simp add: copyFile_def)
next
  fix E' n src dst rename tmplData' r fs'
  assume "CopyDir2 E' n src dst rename tmplData' fs = Some (r, fs')"
  then have "extends fs fs'" by (rule CopyDir2_extends)
  then show "Stat fs' dstPath = Inr (File m c)" using assms(2) by (rule Stat_extends)
qed

theorem copy_collision_witness:
  "Open fixture_used ''/src/a.txt'' = Inr (File perm_0644 ''new'') \<and>
   Stat fixture_used ''/dst/src/a.txt'' = Inr (File perm_0644 ''old'') \<and>
   copyFile html_template ''/src/a.txt'' ''/dst/src/a.txt'' [] fixture_used
     = (Some (CreatingDst (PathError ''open'' ''/dst/src/a.txt'' EEXIST)), fixture_used) \<and>
   CopyDir2 html_template 1 ''/src'' ''/dst'' IdentityRename [] fixture_used
     = Some (Some (CreatingDst (PathError ''open'' ''/dst/src/a.txt'' EEXIST)), fixture_used) \<and>
   Stat fixture_used ''/dst/src/a.txt'' = Inr (File perm_0644 ''old'')"
proof -
  have o: "Open fixture_used ''/src/a.txt'' = Inr (File perm_0644 ''new'')" by code_simp
  have s: "Stat fixture_used ''/dst/src/a.txt'' = Inr (File perm_0644 ''old'')" by code_simp
  have run: "CopyDir2 html_template 1 ''/src'' ''/dst'' IdentityRename [] fixture_used
     = Some (Some (CreatingDst (PathError ''open'' ''/dst/src/a.txt'' EEXIST)), fixture_used)"
    by code_simp
  note inst = copy_collision [OF o s, of html_template "[]"]
  from conjunct2 [OF inst] run
  have kept: "Stat fixture_used ''/dst/src/a.txt'' = Inr (File perm_0644 ''old'')" by blast
  from o s conjunct1 [OF inst] run kept show ?thesis by (intro conjI)
qed

text \<open>
  Claim C3 at the input where the code leaves it.  \<open>DotRename\<close> replaces the first
  occurrence of \<open>dot.\<close> wherever it stands, not only a prefix: for \<open>a.dot.b\<close> the
  result is \<open>a..b\<close>, neither the \<open>a.b\<close> of the claim nor the unchanged name that
  the comment of the function promises for a name without the prefix.
\<close>

theorem DotRename_inner_occurrence:
  "DotRename ''a.dot.b'' = ''a..b'' \<and>
   DotRename ''a.dot.b'' \<noteq> ''a.b'' \<and>
   DotRename ''a.dot.b'' \<noteq> ''a.dot.b''"
  by (simp add: DotRename_def)

text \<open>
  Claim C4 at an input where it fails.  \<open>src\<close> is the regular file
  \<open>/src/dot.git/config\<close> and \<open>dst\<close> is the directory \<open>/dst\<close>: the error of \<open>CopyDir2\<close>
  is "/dst is not a directory"; it names \<open>dst\<close>, not the offending \<open>src\<close>.
\<close>

theorem CopyDir2_file_as_src_names_dst:
  "CopyDir2 html_template 1 ''/src/dot.git/config'' ''/dst'' IdentityRename [] fixture
     = Some (Some (NotADirectory ''/dst''), fixture)"
  by code_simp

text \<open>
  Claim C5, for a copy into a fresh target.  \<open>src\<close> and \<open>dst\<close> are directories
  (at the addresses \<open>s\<close> and \<open>d\<close>), \<open>dst\<close> is not \<open>src\<close> or below it, the renamed
  base name of \<open>src\<close> is a valid name and nothing exists at the target
  \<open>d @ [rename (Base src)]\<close> or below it; below \<open>src\<close> entry names and renamed
  directory names are valid and no two entries of a directory get the same name in the
  copy.  Then, without template data, \<open>CopyDir2\<close> returns without error as soon as its
  depth bound reaches \<open>depth_bound fs\<close>, and the file system afterwards is the one
  before with, at and below the target, exactly the copy of the tree of \<open>src\<close>: every
  directory under its renamed name (mode 0770), every file under its own name with its
  content (mode 0660), and no other node; nothing outside the target has changed.
\<close>

theorem CopyDir2_mirror:
  assumes "resolve fs src = Inr s" "lookup fs s = Some (Dir ms)"
    and "resolve fs dst = Inr d" "lookup fs d = Some (Dir md)"
    and "valid_name (rename (Base src))"
    and "fresh_target fs (d @ [rename (Base src)])"
    and "\<not> prefix s d"
    and "tree_names_ok fs rename s"
    and "depth_bound fs \<le> n"
  shows "\<exists>fs'. CopyDir2 E n src dst rename [] fs = Some (None, fs') \<and>
           cwd fs' = cwd fs \<and>
           (\<forall>p. lookup fs' p =
              (if prefix (d @ [rename (Base src)]) p
               then copied fs rename s (drop (Suc (length d)) p)
               else lookup fs p))"
proof -
  let ?t = "d @ [rename (Base src)]"
  have ab: "absent_below fs ?t" by (rule fresh_target_absent [OF assms(6)]) simp
  have np: "\<not> prefix s ?t"
  proof
    assume "prefix s ?t"
    then have "prefix s d \<or> s = ?t" by (auto simp: prefix_snoc)
    with assms(7) have "s = ?t" by simp
    with ab assms(2) show False by (simp add: absent_below_def)
  qed
  from call_ok_all [of E n rename, unfolded call_ok_def, rule_format,
      OF assms(1-5) ab np tree_names_ok_src_tree_ok [OF assms(8)] depth_bound_shallow [OF assms(9)]]
  show ?thesis by (auto simp: state_after_def copied_def)
qed

theorem CopyDir2_mirror_witness:
  "resolve fixture ''/src'' = Inr [''src''] \<and>
   lookup fixture [''src''] = Some (Dir perm_0755) \<and>
   resolve fixture ''/dst'' = Inr [''dst''] \<and>
   lookup fixture [''dst''] = Some (Dir perm_0755) \<and>
   valid_name (DotRename (Base ''/src'')) \<and>
   fresh_target fixture ([''dst''] @ [DotRename (Base ''/src'')]) \<and>
   \<not> prefix [''src''] [''dst''] \<and>
   tree_names_ok fixture DotRename [''src''] \<and>
   depth_bound fixture \<le> 4 \<and>
   CopyDir2 html_template 4 ''/src'' ''/dst'' DotRename [] fixture = Some (None, fixture_copied) \<and>
   (\<forall>p. lookup fixture_copied p =
      (if prefix ([''dst''] @ [DotRename (Base ''/src'')]) p
       then copied fixture DotRename [''src''] (drop (Suc (length [''dst''])) p)
       else lookup fixture p)) \<and>
   copied fixture DotRename [''src''] [''.git'', ''config''] = Some (File perm_0660 ''[core]'') \<and>
   copied fixture DotRename [''src''] [''dot.git''] = None"
proof -
  have h1: "resolve fixture ''/src'' = Inr [''src'']" by code_simp
  have h2: "lookup fixture [''src''] = Some (Dir perm_0755)" by code_simp
  have h3: "resolve fixture ''/dst'' = Inr [''dst'']" by code_simp
  have h4: "lookup fixture [''dst''] = Some (Dir perm_0755)" by code_simp
  have h5: "valid_name (DotRename (Base ''/src''))" by code_simp
  have h6: "fresh_target fixture ([''dst''] @ [DotRename (Base ''/src'')])" by code_simp
  have h7: "\<not> prefix [''src''] [''dst'']" by simp
  have h8: "tree_names_ok fixture DotRename [''src'']" by code_simp
  have h9: "depth_bound fixture \<le> 4" by code_simp
  have run: "CopyDir2 html_template 4 ''/src'' ''/dst'' DotRename [] fixture
               = Some (None, fixture_copied)"
    by code_simp
  have c1: "copied fixture DotRename [''src''] [''.git'', ''config'']
              = Some (File perm_0660 ''[core]'')" by code_simp
  have c2: "copied fixture DotRename [''src''] [''dot.git''] = None" by code_simp
  from CopyDir2_mirror [OF h1 h2 h3 h4 h5 h6 h7 h8 h9, of html_template] run
  have post: "\<forall>p. lookup fixture_copied p =
      (if prefix ([''dst''] @ [DotRename (Base ''/src'')]) p
       then copied fixture DotRename [''src''] (drop (Suc (length [''dst''])) p)
       else lookup fixture p)"
    by auto
  from h1 h2 h3 h4 h5 h6 h7 h8 h9 run post c1 c2 show ?thesis by (intro conjI)
qed

text \<open>
  Claim C5 as stated (for every source tree) fails: \<open>/src\<close> holds the directories
  \<open>.x\<close> and \<open>dot.x\<close>, each with a file \<open>f\<close>; with \<open>DotRename\<close> both are copied to
  \<open>/dst/src/.x\<close>, the second \<open>f\<close> meets the first, and \<open>CopyDir2\<close> returns the error
  of the exclusive creation: the file of \<open>dot.x\<close> has no copy.
\<close>

theorem CopyDir2_clash_counterexample:
  "result_error (CopyDir2 html_template 3 ''/src'' ''/dst'' DotRename [] fixture_clash)
     = Some (Some (CreatingDst (PathError ''open'' ''/dst/src/.x/f'' EEXIST))) \<and>
   result_stat (CopyDir2 html_template 3 ''/src'' ''/dst'' DotRename [] fixture_clash)
      ''/dst/src/.x/f''
     = Some (Inr (File perm_0660 ''one''))"
  by code_simp



text \<open>
  Claim C7, in the syntax of Go templates.  With data \<open>{bar: X}\<close> and a source file
  \<open>foo-{{.bar}}.template\<close> of content \<open>hello {{.bar}}\<close>, the copy ends without error
  and the destination holds the file \<open>foo-X\<close> of content \<open>hello X\<close>.
\<close>

theorem dotted_example:
  "result_error (CopyDir2 html_template 1 ''/src'' ''/dst'' IdentityRename [(''bar'', ''X'')]
      fixture_dotted)
     = Some None \<and>
   result_stat (CopyDir2 html_template 1 ''/src'' ''/dst'' IdentityRename [(''bar'', ''X'')]
      fixture_dotted) ''/dst/src/foo-X''
     = Some (Inr (File perm_0660 ''hello X''))"
  by code_simp

text \<open>
  Claim C7 as stated fails: for the file name \<open>foo-{{bar}}.template\<close> the action
  \<open>{{bar}}\<close> is a call of a function that is not defined, the file name does not parse,
  \<open>CopyDir2\<close> returns that error and no file \<open>foo-X\<close> is made.
\<close>

theorem spec_example_counterexample:
  "result_error (CopyDir2 html_template 1 ''/src'' ''/dst'' IdentityRename [(''bar'', ''X'')]
      fixture_spec)
     = Some (Some (ParsingFileName ''/src/foo-{{bar}}.template'' (FunctionNotDefined ''bar''))) \<and>
   result_stat (CopyDir2 html_template 1 ''/src'' ''/dst'' IdentityRename [(''bar'', ''X'')]
      fixture_spec) ''/dst/src/foo-X''
     = Some (Inl ENOENT)"
  by code_simp

text \<open>
  Claim C8.  When \<open>src\<close> or \<open>dst\<close> does not exist or is not a directory,
  \<open>CopyDir2\<close> returns an error and the file system is the one it was called with.
\<close>

theorem CopyDir2_precondition_no_mutation:
  assumes "\<not> is_directory fs src \<or> \<not> is_directory fs dst"
  shows "\<exists>err. CopyDir2 E (Suc n) src dst rename tmplData fs = Some (Some err, fs)"
proof -
  from check_dirs_not_directory [OF assms] obtain err where
    "check_dirs fs dst [src, dst] = Some err" by blast
  then have "CopyDir2 E (Suc n) src dst rename tmplData fs = Some (Some err, fs)"
    by (simp del: check_dirs.simps)
  then show ?thesis by blast
qed

theorem CopyDir2_precondition_no_mutation_witness:
  "\<not> is_directory fixture ''/missing'' \<and>
   (\<exists>err. CopyDir2 html_template (Suc 0) ''/missing'' ''/dst'' DotRename [] fixture
            = Some (Some err, fixture))"
proof -
  have h: "\<not> is_directory fixture ''/missing''" by code_simp
  then have "\<not> is_directory fixture ''/missing'' \<or> \<not> is_directory fixture ''/dst''" by (rule disjI1)
  from CopyDir2_precondition_no_mutation [OF this, of html_template 0 DotRename "[]"] h
  show ?thesis by (intro conjI)
qed

text \<open>
  Claim C9.  File names and contents are rendered with the escaping of
  html/template: for the value \<open>a<b&c\<close> of the key \<open>bar\<close>, the file
  \<open>foo-{{.bar}}.template\<close> of content \<open>hello {{.bar}}\<close> is copied to a file named
  \<open>foo-a&lt;b&amp;c\<close> of content \<open>hello a&lt;b&amp;c\<close>, and no file with the raw
  value in its name is made.
\<close>

theorem html_escaping_example:
  "htmlEscaper ''a<b&c'' = ''a&lt;b&amp;c'' \<and>
   result_stat (CopyDir2 html_template 1 ''/src'' ''/dst'' IdentityRename [(''bar'', ''a<b&c'')]
      fixture_dotted) ''/dst/src/foo-a&lt;b&amp;c''
     = Some (Inr (File perm_0660 ''hello a&lt;b&amp;c'')) \<and>
   result_stat (CopyDir2 html_template 1 ''/src'' ''/dst'' IdentityRename [(''bar'', ''a<b&c'')]
      fixture_dotted) ''/dst/src/foo-a<b&c''
     = Some (Inl ENOENT)"
  by code_simp

text \<open>
  Claim C10.  Whatever \<open>CopyDir2\<close> returns, every node that exists after the call
  and did not exist before it is a regular file of mode 0660 or a directory of mode
  0770.
\<close>

theorem CopyDir2_creation_modes:
  assumes "CopyDir2 E n src dst rename tmplData fs = Some (r, fs')"
    and "lookup fs q = None"
    and "lookup fs' q = Some nd"
  shows "(case nd of Dir m \<Rightarrow> m = perm_0770 | File m c \<Rightarrow> m = perm_0660)"
proof -
  from CopyDir2_adds [OF assms(1)] assms(2,3) have "created_node nd"
    unfolding adds_def by blast
  then show ?thesis by (simp add: created_node_def)
qed

theorem CopyDir2_creation_modes_witness:
  "CopyDir2 html_template 2 ''/src'' ''/dst'' DotRename [] fixture = Some (None, fixture_copied) \<and>
   lookup fixture [''dst'', ''src'', ''.git''] = None \<and>
   lookup fixture_copied [''dst'', ''src'', ''.git''] = Some (Dir perm_0770) \<and>
   (case Dir perm_0770 of Dir m \<Rightarrow> m = perm_0770 | File m c \<Rightarrow> m = perm_0660) \<and>
   lookup fixture [''dst'', ''src'', ''.git'', ''config''] = None \<and>
   lookup fixture_copied [''dst'', ''src'', ''.git'', ''config''] = Some (File perm_0660 ''[core]'')"
proof -
  have run: "CopyDir2 html_template 2 ''/src'' ''/dst'' DotRename [] fixture
               = Some (None, fixture_copied)"
    by code_simp
  have a: "lookup fixture [''dst'', ''src'', ''.git''] = None" by code_simp
  have b: "lookup fixture_copied [''dst'', ''src'', ''.git''] = Some (Dir perm_0770)" by code_simp
  have c: "lookup fixture [''dst'', ''src'', ''.git'', ''config''] = None" by code_simp
  have d: "lookup fixture_copied [''dst'', ''src'', ''.git'', ''config'']
             = Some (File perm_0660 ''[core]'')" by code_simp
  from run a b CopyDir2_creation_modes [OF run a b] c d show ?thesis by (intro conjI)
qed

end
